theory Spec2Isabelle
  imports Complex_Main "HOL-Library.Signed_Division" "HOL-Library.Multiset"
begin

section \<open>Data model of the queueing simulator\<close>

text \<open>
  The embedding follows \<^verbatim>\<open>ConsoleApplication1.cpp\<close>.

  \<^item> \<^verbatim>\<open>Request*\<close> is an address (\<open>ptr\<close>) into an explicit store of \<open>Request\<close> objects;
    \<^verbatim>\<open>nullptr\<close> is \<open>None\<close> of \<open>ptr option\<close>. \<^verbatim>\<open>new\<close> draws addresses from a counter and
    \<^verbatim>\<open>delete\<close> removes the object from the store.
  \<^item> \<^verbatim>\<open>double\<close> is modelled by \<open>real\<close> (no rounding, no NaN, no infinities).
  \<^item> \<^verbatim>\<open>int\<close> has 32 bits. The index arithmetic of \<^verbatim>\<open>getFreeDevice\<close> is checked against
    \<^verbatim>\<open>INT_MIN\<close> and \<^verbatim>\<open>INT_MAX\<close>; the counters of requests, which only count up by one per
    event, are integers without a bound.
  \<^item> Undefined behaviour of the C++ program (an index outside a vector, a pointer that is
    not live, a remainder by zero, a signed overflow in the index arithmetic) is the error
    value \<open>Inl\<close> of a result \<open>error + 'a\<close>.
  \<^item> The random engine and the two distributions are an injected source of variates:
    the generator state is the number of variates drawn so far.
  \<^item> \<^verbatim>\<open>std::queue\<close> is a list with its front at the head; \<^verbatim>\<open>std::priority_queue\<close> is
    the list of pending events, and the choice among events of equal minimal time, which
    the C++ library leaves open, is a parameter of each loop iteration.
\<close>

type_synonym ptr = nat

datatype error = IndexOutOfRange | InvalidPointer | DivisionByZero | SignedOverflow

record Request =
  source_id :: int
  request_id :: int
  arrival_time :: real
  start_service_time :: real
  finish_service_time :: real

type_synonym heap = "ptr \<Rightarrow> Request option"

text \<open>The constructor \<^verbatim>\<open>Request(src_id, req_id, arr_time)\<close>.\<close>

definition Request_init :: "int \<Rightarrow> int \<Rightarrow> real \<Rightarrow> Request" where
  "Request_init src_id req_id arr_time =
     \<lparr>source_id = src_id, request_id = req_id, arrival_time = arr_time,
      start_service_time = 0, finish_service_time = 0\<rparr>"

definition INT_MAX :: int where
  "INT_MAX = 2147483647"

definition INT_MIN :: int where
  "INT_MIN = - 2147483648"

text \<open>\<^verbatim>\<open>a + b\<close> on \<^verbatim>\<open>int\<close>: a sum outside the range of the type is undefined behaviour.\<close>

definition int_add :: "int \<Rightarrow> int \<Rightarrow> error + int" where
  "int_add a b =
     (if INT_MIN \<le> a + b \<and> a + b \<le> INT_MAX then Inr (a + b) else Inl SignedOverflow)"

text \<open>\<^verbatim>\<open>v[i]\<close> on a \<^verbatim>\<open>std::vector\<close> with an \<^verbatim>\<open>int\<close> index.\<close>

definition vec_at :: "'a list \<Rightarrow> int \<Rightarrow> error + 'a" where
  "vec_at v i = (if 0 \<le> i \<and> i < int (length v) then Inr (v ! nat i) else Inl IndexOutOfRange)"

section \<open>Buffer\<close>

record Buffer =
  queue :: "ptr list"
  max_size :: int

definition Buffer_init :: "int \<Rightarrow> Buffer" where
  "Buffer_init sz = \<lparr>queue = [], max_size = sz\<rparr>"

text \<open>
  \<^verbatim>\<open>buffer.size() >= max_size\<close> compares a \<^verbatim>\<open>size_t\<close> with an \<^verbatim>\<open>int\<close>: the \<^verbatim>\<open>int\<close> is
  converted to \<^verbatim>\<open>size_t\<close> (64 bits here), so a negative capacity becomes a huge one.
\<close>

definition size_t_of_int :: "int \<Rightarrow> int" where
  "size_t_of_int i = i mod 2 ^ 64"

definition isFull :: "Buffer \<Rightarrow> bool" where
  "isFull b = (size_t_of_int (int (length (queue b))) \<ge> size_t_of_int (max_size b))"

definition isEmpty :: "Buffer \<Rightarrow> bool" where
  "isEmpty b = (queue b = [])"

definition getSize :: "Buffer \<Rightarrow> int" where
  "getSize b = int (length (queue b))"

definition getMaxSize :: "Buffer \<Rightarrow> int" where
  "getMaxSize b = max_size b"

definition addRequest :: "ptr \<Rightarrow> Buffer \<Rightarrow> Buffer" where
  "addRequest request b = b\<lparr>queue := queue b @ [request]\<rparr>"

text \<open>
  The loop \<^verbatim>\<open>while (!temp.empty()) { buffer.push(temp.front()); temp.pop(); }\<close> that ends
  every scan of the buffer.
\<close>

fun refill :: "ptr list \<Rightarrow> ptr list \<Rightarrow> ptr list" where
  "refill buf [] = buf"
| "refill buf (x # temp) = refill (buf @ [x]) temp"

text \<open>
  First loop of \<^verbatim>\<open>getNextRequest\<close> (lines 112-121): the arguments are the rest of the
  buffer, \<^verbatim>\<open>found\<close> and \<^verbatim>\<open>temp\<close>.
\<close>

fun packet_scan :: "heap \<Rightarrow> int \<Rightarrow> ptr list \<Rightarrow> ptr option \<Rightarrow> ptr list
    \<Rightarrow> error + (ptr option \<times> ptr list)" where
  "packet_scan h css [] found temp = Inr (found, temp)"
| "packet_scan h css (req # buf) found temp =
     (case h req of
        None \<Rightarrow> Inl InvalidPointer
      | Some r \<Rightarrow>
          if source_id r = css \<and> found = None
          then packet_scan h css buf (Some req) temp
          else packet_scan h css buf found (temp @ [req]))"

text \<open>
  Second scan of \<^verbatim>\<open>getNextRequest\<close> (lines 145-156): rest of the buffer,
  \<^verbatim>\<open>best_request\<close>, \<^verbatim>\<open>best_source\<close>, \<^verbatim>\<open>temp\<close>.
\<close>

fun priority_scan :: "heap \<Rightarrow> ptr list \<Rightarrow> ptr option \<Rightarrow> int \<Rightarrow> ptr list
    \<Rightarrow> error + (ptr option \<times> int \<times> ptr list)" where
  "priority_scan h [] best_request best_source temp = Inr (best_request, best_source, temp)"
| "priority_scan h (req # buf) best_request best_source temp =
     (case h req of
        None \<Rightarrow> Inl InvalidPointer
      | Some r \<Rightarrow>
          if source_id r < best_source
          then priority_scan h buf (Some req) (source_id r)
                 (case best_request of None \<Rightarrow> temp | Some b \<Rightarrow> temp @ [b])
          else priority_scan h buf best_request best_source (temp @ [req]))"

text \<open>Lines 136-167 of \<^verbatim>\<open>getNextRequest\<close>: the selection by smallest source id.\<close>

definition select_by_priority :: "heap \<Rightarrow> Buffer \<Rightarrow> int \<Rightarrow> error + (ptr option \<times> Buffer \<times> int)" where
  "select_by_priority h b css =
     (if queue b = [] then Inr (None, b, -1)
      else case priority_scan h (queue b) None INT_MAX [] of
        Inl e \<Rightarrow> Inl e
      | Inr (best_request, best_source, temp) \<Rightarrow>
          Inr (best_request, b\<lparr>queue := refill [] temp\<rparr>,
               if best_request \<noteq> None then best_source else css))"

text \<open>
  \<^verbatim>\<open>Request* getNextRequest(int& current_serving_source)\<close>: the result is the returned
  pointer, the buffer afterwards and the marker afterwards.
\<close>

definition getNextRequest :: "heap \<Rightarrow> Buffer \<Rightarrow> int \<Rightarrow> error + (ptr option \<times> Buffer \<times> int)" where
  "getNextRequest h b current_serving_source =
     (if queue b = [] then Inr (None, b, -1)
      else if current_serving_source \<noteq> -1 then
        (case packet_scan h current_serving_source (queue b) None [] of
           Inl e \<Rightarrow> Inl e
         | Inr (found, temp) \<Rightarrow>
             (case found of
                Some f \<Rightarrow> Inr (Some f, b\<lparr>queue := refill [] temp\<rparr>, current_serving_source)
              | None \<Rightarrow> select_by_priority h (b\<lparr>queue := refill [] temp\<rparr>) (-1)))
      else select_by_priority h b current_serving_source)"

text \<open>
  The loop of \<^verbatim>\<open>findRequestToReject\<close> (lines 178-189): rest of the buffer,
  \<^verbatim>\<open>worst_request\<close>, \<^verbatim>\<open>worst_source\<close>, \<^verbatim>\<open>temp\<close>.
\<close>

fun reject_scan :: "heap \<Rightarrow> ptr list \<Rightarrow> ptr option \<Rightarrow> int \<Rightarrow> ptr list
    \<Rightarrow> error + (ptr option \<times> ptr list)" where
  "reject_scan h [] worst_request worst_source temp = Inr (worst_request, temp)"
| "reject_scan h (req # buf) worst_request worst_source temp =
     (case h req of
        None \<Rightarrow> Inl InvalidPointer
      | Some r \<Rightarrow>
          if source_id r > worst_source
          then reject_scan h buf (Some req) (source_id r)
                 (case worst_request of None \<Rightarrow> temp | Some w \<Rightarrow> temp @ [w])
          else reject_scan h buf worst_request worst_source (temp @ [req]))"

definition findRequestToReject :: "heap \<Rightarrow> Buffer \<Rightarrow> error + (ptr option \<times> Buffer)" where
  "findRequestToReject h b =
     (if queue b = [] then Inr (None, b)
      else case reject_scan h (queue b) None (-1) [] of
        Inl e \<Rightarrow> Inl e
      | Inr (worst_request, temp) \<Rightarrow> Inr (worst_request, b\<lparr>queue := refill [] temp\<rparr>))"

text \<open>The loop of \<^verbatim>\<open>removeRequest\<close> (lines 202-208).\<close>

fun remove_scan :: "ptr \<Rightarrow> ptr list \<Rightarrow> ptr list \<Rightarrow> ptr list" where
  "remove_scan request [] temp = temp"
| "remove_scan request (req # buf) temp =
     (if req \<noteq> request then remove_scan request buf (temp @ [req])
      else remove_scan request buf temp)"

definition removeRequest :: "ptr \<Rightarrow> Buffer \<Rightarrow> Buffer" where
  "removeRequest request b = b\<lparr>queue := refill [] (remove_scan request (queue b) [])\<rparr>"

section \<open>Variates, sources and devices\<close>

text \<open>
  \<^verbatim>\<open>dist(generator)\<close>: the value drawn depends on the generator state and on the
  parameters of the distribution, and the generator advances.
\<close>

record VariateSource =
  uniform_real :: "nat \<Rightarrow> real \<Rightarrow> real \<Rightarrow> real"
  exponential :: "nat \<Rightarrow> real \<Rightarrow> real"

record Source =
  dist_min :: real
  dist_max :: real
  own_id :: int

definition Source_init :: "int \<Rightarrow> real \<Rightarrow> real \<Rightarrow> Source" where
  "Source_init i min_int max_int = \<lparr>dist_min = min_int, dist_max = max_int, own_id = i\<rparr>"

definition getNextInterval :: "VariateSource \<Rightarrow> Source \<Rightarrow> nat \<Rightarrow> real \<times> nat" where
  "getNextInterval vs s g = (uniform_real vs g (dist_min s) (dist_max s), Suc g)"

record Device =
  dist_lambda :: real
  device_id :: int
  current_request :: "ptr option"

definition Device_init :: "int \<Rightarrow> real \<Rightarrow> Device" where
  "Device_init i mean_time = \<lparr>dist_lambda = 1 / mean_time, device_id = i, current_request = None\<rparr>"

definition getServiceTime :: "VariateSource \<Rightarrow> Device \<Rightarrow> nat \<Rightarrow> real \<times> nat" where
  "getServiceTime vs d g = (exponential vs g (dist_lambda d), Suc g)"

definition isFree :: "Device \<Rightarrow> bool" where
  "isFree d = (current_request d = None)"

definition startService :: "ptr \<Rightarrow> real \<Rightarrow> Device \<Rightarrow> heap \<Rightarrow> error + (Device \<times> heap)" where
  "startService req now d h =
     (case h req of
        None \<Rightarrow> Inl InvalidPointer
      | Some r \<Rightarrow> Inr (d\<lparr>current_request := Some req\<rparr>,
                       h(req \<mapsto> r\<lparr>start_service_time := now\<rparr>)))"

definition finishService :: "Device \<Rightarrow> ptr option \<times> Device" where
  "finishService d = (current_request d, d\<lparr>current_request := None\<rparr>)"

section \<open>DeviceSelector\<close>

record DeviceSelector =
  last_used :: int
  num_devices :: int

definition DeviceSelector_init :: "int \<Rightarrow> DeviceSelector" where
  "DeviceSelector_init num_devs = \<lparr>last_used = -1, num_devices = num_devs\<rparr>"

text \<open>
  The \<^verbatim>\<open>for\<close> loop of \<^verbatim>\<open>getFreeDevice\<close> (lines 231-237), from the value \<open>i\<close> of its
  counter. \<^verbatim>\<open>%\<close> on \<^verbatim>\<open>int\<close> truncates (\<open>smod\<close>), and \<^verbatim>\<open>start_index + i\<close> may overflow.
  The counter itself stays below \<^verbatim>\<open>num_devices\<close>, so \<^verbatim>\<open>i++\<close> does not. The returned
  \<^verbatim>\<open>Device*\<close> is the index of the device in the pool.
\<close>

function free_scan :: "DeviceSelector \<Rightarrow> Device list \<Rightarrow> int \<Rightarrow> int
    \<Rightarrow> error + (nat option \<times> DeviceSelector)" where
  "free_scan sel devs start_index i =
     (if i < num_devices sel then
        (case int_add start_index i of
           Inl e \<Rightarrow> Inl e
         | Inr s \<Rightarrow>
             (case vec_at devs (s smod num_devices sel) of
                Inl e \<Rightarrow> Inl e
              | Inr d \<Rightarrow>
                  if isFree d
                  then Inr (Some (nat (s smod num_devices sel)),
                            sel\<lparr>last_used := s smod num_devices sel\<rparr>)
                  else free_scan sel devs start_index (i + 1)))
      else Inr (None, sel))"
  by pat_completeness auto
termination
  by (relation "measure (\<lambda>(sel, devs, start_index, i). nat (num_devices sel - i))") auto

definition getFreeDevice :: "DeviceSelector \<Rightarrow> Device list \<Rightarrow> error + (nat option \<times> DeviceSelector)" where
  "getFreeDevice sel devs =
     (if devs = [] then Inr (None, sel)
      else case int_add (last_used sel) 1 of
        Inl e \<Rightarrow> Inl e
      | Inr s \<Rightarrow>
          if num_devices sel = 0 then Inl DivisionByZero
          else free_scan sel devs (s smod num_devices sel) 0)"

section \<open>Events and the calendar\<close>

datatype EventType = ARRIVAL | DEPARTURE

record Event =
  time :: real
  type :: EventType
  entity_id :: int
  event_request :: "ptr option"

definition Event_init :: "real \<Rightarrow> EventType \<Rightarrow> int \<Rightarrow> ptr option \<Rightarrow> Event" where
  "Event_init t tp i req = \<lparr>time = t, type = tp, entity_id = i, event_request = req\<rparr>"

text \<open>
  The calendar holds the pending events. \<^verbatim>\<open>top()\<close> is an event of minimal time; which
  one among several of equal time is decided by the number \<open>c\<close>.
\<close>

definition earliest :: "Event list \<Rightarrow> Event list" where
  "earliest cal = filter (\<lambda>e. \<forall>e' \<in> set cal. time e \<le> time e') cal"

definition calendar_top :: "nat \<Rightarrow> Event list \<Rightarrow> Event" where
  "calendar_top c cal = earliest cal ! (c mod length (earliest cal))"

definition calendar_pop :: "nat \<Rightarrow> Event list \<Rightarrow> Event list" where
  "calendar_pop c cal = remove1 (calendar_top c cal) cal"

definition calendar_push :: "Event \<Rightarrow> Event list \<Rightarrow> Event list" where
  "calendar_push e cal = cal @ [e]"

section \<open>SimulationModel\<close>

record SimulationModel =
  calendar :: "Event list"
  sources :: "Source list"
  devices :: "Device list"
  buffer :: Buffer
  device_selector :: DeviceSelector
  generator :: nat
  current_time :: real
  current_serving_source :: int
  requests_generated :: int
  requests_served :: int
  requests_rejected :: int
  source_requests :: "int list"
  source_rejections :: "int list"
  source_total_time :: "real list"
  source_waiting_time :: "real list"
  device_busy_time :: "real list"
  store :: heap
  next_ptr :: ptr

text \<open>\<^verbatim>\<open>new Request(src_id, req_id, arr_time)\<close> and \<^verbatim>\<open>delete\<close>.\<close>

definition new_Request :: "int \<Rightarrow> int \<Rightarrow> real \<Rightarrow> SimulationModel \<Rightarrow> ptr \<times> SimulationModel" where
  "new_Request src_id req_id arr_time st =
     (next_ptr st,
      st\<lparr>store := (store st)(next_ptr st \<mapsto> Request_init src_id req_id arr_time),
         next_ptr := Suc (next_ptr st)\<rparr>)"

definition delete_Request :: "ptr \<Rightarrow> SimulationModel \<Rightarrow> SimulationModel" where
  "delete_Request p st = st\<lparr>store := (store st)(p := None)\<rparr>"

text \<open>
  The last loop of the constructor (lines 312-315): one first arrival for each source.
\<close>

definition schedule_first :: "VariateSource \<Rightarrow> nat \<Rightarrow> SimulationModel \<Rightarrow> SimulationModel" where
  "schedule_first vs i st =
     (let (first_time, g) = getNextInterval vs (sources st ! i) (generator st)
      in st\<lparr>generator := g,
            calendar := calendar_push (Event_init first_time ARRIVAL (int i) None) (calendar st)\<rparr>)"

definition SimulationModel_init :: "VariateSource \<Rightarrow> SimulationModel" where
  "SimulationModel_init vs =
     (let num_sources = 3;
          num_devs = 2
      in fold (schedule_first vs) [0..<num_sources]
           \<lparr>calendar = [],
            sources = map (\<lambda>i. Source_init (int i) (1.5 + real i * 0.5) (2.5 + real i * 0.5))
                        [0..<num_sources],
            devices = map (\<lambda>i. Device_init (int i) (2.0 + real i * 1.0)) [0..<num_devs],
            buffer = Buffer_init 3,
            device_selector = DeviceSelector_init (int num_devs),
            generator = 0,
            current_time = 0,
            current_serving_source = -1,
            requests_generated = 0,
            requests_served = 0,
            requests_rejected = 0,
            source_requests = replicate num_sources 0,
            source_rejections = replicate num_sources 0,
            source_total_time = replicate num_sources 0,
            source_waiting_time = replicate num_sources 0,
            device_busy_time = replicate num_devs 0,
            store = Map.empty,
            next_ptr = 0\<rparr>)"

text \<open>
  Lines 335-338 and 385-388: draw a service time, start the service on the device found
  and schedule the departure.
\<close>

definition start_on_device :: "VariateSource \<Rightarrow> nat \<Rightarrow> ptr \<Rightarrow> SimulationModel \<Rightarrow> error + SimulationModel" where
  "start_on_device vs idx req st =
     (case vec_at (devices st) (int idx) of
        Inl e \<Rightarrow> Inl e
      | Inr free_device \<Rightarrow>
          (let (service_time, g) = getServiceTime vs free_device (generator st)
           in case startService req (current_time st) free_device (store st) of
                Inl e \<Rightarrow> Inl e
              | Inr (d, h) \<Rightarrow>
                  Inr (st\<lparr>generator := g,
                          devices := (devices st)[idx := d],
                          store := h,
                          calendar := calendar_push
                            (Event_init (current_time st + service_time) DEPARTURE
                               (device_id free_device) (Some req))
                            (calendar st)\<rparr>)))"

text \<open>Lines 340-354: no free device, the request goes to the buffer.\<close>

definition place_in_buffer :: "ptr \<Rightarrow> SimulationModel \<Rightarrow> error + SimulationModel" where
  "place_in_buffer req st =
     (if \<not> isFull (buffer st) then Inr (st\<lparr>buffer := addRequest req (buffer st)\<rparr>)
      else
        (case findRequestToReject (store st) (buffer st) of
           Inl e \<Rightarrow> Inl e
         | Inr (rejected_request, b) \<Rightarrow>
             (case rejected_request of
                None \<Rightarrow> Inr (st\<lparr>buffer := addRequest req b\<rparr>)
              | Some rej \<Rightarrow>
                  (case store st rej of
                     None \<Rightarrow> Inl InvalidPointer
                   | Some r \<Rightarrow>
                       (case vec_at (source_rejections st) (source_id r) of
                          Inl e \<Rightarrow> Inl e
                        | Inr n \<Rightarrow>
                            Inr (delete_Request rej
                                   (st\<lparr>source_rejections :=
                                          (source_rejections st)[nat (source_id r) := n + 1],
                                        requests_rejected := requests_rejected st + 1,
                                        buffer := addRequest req (removeRequest rej b)\<rparr>)))))))"

definition processArrival :: "VariateSource \<Rightarrow> int \<Rightarrow> SimulationModel \<Rightarrow> error + SimulationModel" where
  "processArrival vs sid st =
     (case vec_at (source_requests st) sid of
        Inl e \<Rightarrow> Inl e
      | Inr n \<Rightarrow>
          (let (req, st1) =
                 new_Request sid (n + 1) (current_time st)
                   (st\<lparr>requests_generated := requests_generated st + 1,
                       source_requests := (source_requests st)[nat sid := n + 1]\<rparr>)
           in case vec_at (sources st1) sid of
                Inl e \<Rightarrow> Inl e
              | Inr s \<Rightarrow>
                  (let (interval, g) = getNextInterval vs s (generator st1);
                       st2 = st1\<lparr>generator := g,
                                 calendar := calendar_push
                                   (Event_init (current_time st1 + interval) ARRIVAL sid None)
                                   (calendar st1)\<rparr>
                   in case getFreeDevice (device_selector st2) (devices st2) of
                        Inl e \<Rightarrow> Inl e
                      | Inr (free_device, sel) \<Rightarrow>
                          (case free_device of
                             Some idx \<Rightarrow> start_on_device vs idx req (st2\<lparr>device_selector := sel\<rparr>)
                           | None \<Rightarrow> place_in_buffer req (st2\<lparr>device_selector := sel\<rparr>)))))"

text \<open>The accounting of lines 365-368.\<close>

definition total_time :: "Request \<Rightarrow> real" where
  "total_time r = finish_service_time r - arrival_time r"

definition waiting_time :: "Request \<Rightarrow> real" where
  "waiting_time r = start_service_time r - arrival_time r"

text \<open>Lines 361-376: the statistics of the finished request.\<close>

definition record_finished :: "int \<Rightarrow> ptr option \<Rightarrow> SimulationModel \<Rightarrow> error + SimulationModel" where
  "record_finished did finished_request st =
     (case finished_request of
        None \<Rightarrow> Inr st
      | Some p \<Rightarrow>
          (case store st p of
             None \<Rightarrow> Inl InvalidPointer
           | Some r0 \<Rightarrow>
               (let r = r0\<lparr>finish_service_time := current_time st\<rparr>
                in case vec_at (source_total_time st) (source_id r) of
                     Inl e \<Rightarrow> Inl e
                   | Inr tt \<Rightarrow>
                       (case vec_at (source_waiting_time st) (source_id r) of
                          Inl e \<Rightarrow> Inl e
                        | Inr wt \<Rightarrow>
                            (case vec_at (device_busy_time st) did of
                               Inl e \<Rightarrow> Inl e
                             | Inr bt \<Rightarrow>
                                 Inr (delete_Request p
                                   (st\<lparr>requests_served := requests_served st + 1,
                                       source_total_time :=
                                         (source_total_time st)[nat (source_id r) := tt + total_time r],
                                       source_waiting_time :=
                                         (source_waiting_time st)[nat (source_id r) := wt + waiting_time r],
                                       device_busy_time :=
                                         (device_busy_time st)[nat did :=
                                            bt + (finish_service_time r - start_service_time r)]\<rparr>)))))))"

text \<open>Lines 378-391: the next request of the buffer goes to a free device.\<close>

definition serve_next :: "VariateSource \<Rightarrow> SimulationModel \<Rightarrow> error + SimulationModel" where
  "serve_next vs st =
     (if \<not> isEmpty (buffer st) then
        (case getNextRequest (store st) (buffer st) (current_serving_source st) of
           Inl e \<Rightarrow> Inl e
         | Inr (next_request, b, css) \<Rightarrow>
             (case next_request of
                None \<Rightarrow> Inr (st\<lparr>buffer := b, current_serving_source := css\<rparr>)
              | Some nr \<Rightarrow>
                  (let st1 = st\<lparr>buffer := removeRequest nr b, current_serving_source := css\<rparr>
                   in case getFreeDevice (device_selector st1) (devices st1) of
                        Inl e \<Rightarrow> Inl e
                      | Inr (free_device, sel) \<Rightarrow>
                          (case free_device of
                             Some idx \<Rightarrow> start_on_device vs idx nr (st1\<lparr>device_selector := sel\<rparr>)
                           | None \<Rightarrow> Inr (st1\<lparr>device_selector := sel\<rparr>)))))
      else Inr st)"

definition processDeparture :: "VariateSource \<Rightarrow> int \<Rightarrow> SimulationModel \<Rightarrow> error + SimulationModel" where
  "processDeparture vs did st =
     (case vec_at (devices st) did of
        Inl e \<Rightarrow> Inl e
      | Inr device \<Rightarrow>
          (let (finished_request, d) = finishService device
           in case record_finished did finished_request
                     (st\<lparr>devices := (devices st)[nat did := d]\<rparr>) of
                Inl e \<Rightarrow> Inl e
              | Inr st1 \<Rightarrow> serve_next vs st1))"

text \<open>The condition and the body of the \<^verbatim>\<open>while\<close> loop of \<^verbatim>\<open>run\<close> (lines 410-423).\<close>

definition loop_guard :: "real \<Rightarrow> int \<Rightarrow> SimulationModel \<Rightarrow> bool" where
  "loop_guard max_time max_requests st =
     (calendar st \<noteq> [] \<and> current_time st < max_time \<and> requests_served st < max_requests)"

definition loop_body :: "VariateSource \<Rightarrow> nat \<Rightarrow> SimulationModel \<Rightarrow> error + SimulationModel" where
  "loop_body vs c st =
     (let event = calendar_top c (calendar st);
          st1 = st\<lparr>calendar := calendar_pop c (calendar st), current_time := time event\<rparr>
      in case type event of
           ARRIVAL \<Rightarrow> processArrival vs (entity_id event) st1
         | DEPARTURE \<Rightarrow> processDeparture vs (entity_id event) st1)"

text \<open>
  The loop, from its \<open>k\<close>-th iteration on; \<open>tb k\<close> decides the tie of that iteration.
  \<open>None\<close> is a loop that runs forever, \<open>Some (Inl e)\<close> undefined behaviour.
\<close>

partial_function (option) run_loop :: "VariateSource \<Rightarrow> (nat \<Rightarrow> nat) \<Rightarrow> real \<Rightarrow> int \<Rightarrow> nat
    \<Rightarrow> SimulationModel \<Rightarrow> (error + SimulationModel) option" where
  "run_loop vs tb max_time max_requests k st =
     (if loop_guard max_time max_requests st then
        (case loop_body vs (tb k) st of
           Inl e \<Rightarrow> Some (Inl e)
         | Inr st' \<Rightarrow> run_loop vs tb max_time max_requests (Suc k) st')
      else Some (Inr st))"

definition run :: "VariateSource \<Rightarrow> (nat \<Rightarrow> nat) \<Rightarrow> real \<Rightarrow> int \<Rightarrow> SimulationModel
    \<Rightarrow> (error + SimulationModel) option" where
  "run vs tb max_time max_requests st = run_loop vs tb max_time max_requests 0 st"

text \<open>The states at the head of the loop, for every way of deciding the ties.\<close>

inductive reachable :: "VariateSource \<Rightarrow> real \<Rightarrow> int \<Rightarrow> SimulationModel \<Rightarrow> bool"
  for vs :: VariateSource and max_time :: real and max_requests :: int where
  reachable_init: "reachable vs max_time max_requests (SimulationModel_init vs)"
| reachable_step: "reachable vs max_time max_requests st \<Longrightarrow> loop_guard max_time max_requests st
     \<Longrightarrow> loop_body vs c st = Inr st' \<Longrightarrow> reachable vs max_time max_requests st'"

section \<open>Reference definitions\<close>

definition opt_list :: "'a option \<Rightarrow> 'a list" where
  "opt_list x = (case x of None \<Rightarrow> [] | Some y \<Rightarrow> [y])"

text \<open>The source id of the request at an address.\<close>

definition src_of :: "heap \<Rightarrow> ptr \<Rightarrow> int" where
  "src_of h p = source_id (the (h p))"

text \<open>
  The selection discipline in the words of the specification (section 4.5): the result is
  the returned request and the marker afterwards.
  \<^enum> If the marker names a source and the buffer holds a request of that source, return it
    and leave the marker.
  \<^enum> Otherwise return the request of smallest source id, the first one in the buffer's
    order among equals, and set the marker to its source id.
  \<^enum> On an empty buffer return none and set the marker to none (\<open>-1\<close>).
\<close>

definition selectNext_spec :: "heap \<Rightarrow> ptr list \<Rightarrow> int \<Rightarrow> ptr option \<times> int" where
  "selectNext_spec h buf marker =
     (if buf = [] then (None, -1)
      else if marker \<noteq> -1 \<and> (\<exists>p\<in>set buf. src_of h p = marker)
      then (find (\<lambda>p. src_of h p = marker) buf, marker)
      else (case find (\<lambda>p. \<forall>q\<in>set buf. src_of h p \<le> src_of h q) buf of
              None \<Rightarrow> (None, -1)
            | Some p \<Rightarrow> (Some p, src_of h p)))"

text \<open>Three requests, of sources 1, 2 and 0, at the addresses 0, 1 and 2.\<close>

definition example_store :: heap where
  "example_store = [0 \<mapsto> Request_init 1 1 0, 1 \<mapsto> Request_init 2 1 0, 2 \<mapsto> Request_init 0 1 0]"

definition example_buffer :: Buffer where
  "example_buffer = \<lparr>queue = [0, 1, 2], max_size = 3\<rparr>"

text \<open>
  The device selection in the words of the specification (section 4.4): scan the devices
  from the one after the last device returned, modulo the size of the pool, return the first
  free one and move the cursor there; none, and the cursor as it was, if all are busy.
\<close>

definition selectFree_spec :: "DeviceSelector \<Rightarrow> Device list \<Rightarrow> nat option \<times> DeviceSelector" where
  "selectFree_spec sel devs =
     (let n = length devs;
          rotated = map (\<lambda>j. (nat (last_used sel + 1) + j) mod n) [0..<n]
      in case find (\<lambda>idx. isFree (devs ! idx)) rotated of
           None \<Rightarrow> (None, sel)
         | Some idx \<Rightarrow> (Some idx, sel\<lparr>last_used := int idx\<rparr>))"

text \<open>
  The selector belongs to the pool: it counts the devices of the pool, its cursor is
  \<open>-1\<close> (nothing returned yet) or an index of the pool, and the pool has at most \<open>2 ^ 30\<close>
  devices, so that the sum of two indices is an \<^verbatim>\<open>int\<close>.
\<close>

definition selector_ok :: "DeviceSelector \<Rightarrow> Device list \<Rightarrow> bool" where
  "selector_ok sel devs =
     (num_devices sel = int (length devs) \<and> -1 \<le> last_used sel
      \<and> last_used sel < int (length devs) \<and> int (length devs) \<le> 1073741824)"

text \<open>The two devices of the constructor, both free.\<close>

definition two_free :: "Device list" where
  "two_free = [Device_init 0 2, Device_init 1 3]"

text \<open>
  A pool of two devices, the first busy and the second free, for a selector that was
  constructed for one device.
\<close>

definition mismatched_pool :: "Device list" where
  "mismatched_pool = [(Device_init 0 2)\<lparr>current_request := Some 0\<rparr>, Device_init 1 3]"

text \<open>
  A pool of \<open>2 ^ 30 + 1\<close> devices whose only free device is the last but one, and the same
  pool after that device has started a service.
\<close>

definition huge_pool :: "Device list" where
  "huge_pool = replicate 1073741823 ((Device_init 0 2)\<lparr>current_request := Some 0\<rparr>)
                 @ [Device_init 0 2, (Device_init 0 2)\<lparr>current_request := Some 0\<rparr>]"

definition huge_busy_pool :: "Device list" where
  "huge_busy_pool = replicate 1073741825 ((Device_init 0 2)\<lparr>current_request := Some 0\<rparr>)"

text \<open>
  The invariant of the engine. \<open>held pending st\<close> lists the requests that exist: the one
  in the hands of the engine (\<open>pending\<close>, between two calls), the ones in the buffer and
  the ones in service.
\<close>

definition in_service :: "Device list \<Rightarrow> ptr list" where
  "in_service devs = concat (map (\<lambda>d. opt_list (current_request d)) devs)"

definition held :: "ptr option \<Rightarrow> SimulationModel \<Rightarrow> ptr list" where
  "held pending st = opt_list pending @ queue (buffer st) @ in_service (devices st)"

definition vectors_ok :: "SimulationModel \<Rightarrow> bool" where
  "vectors_ok st =
     (length (source_requests st) = length (sources st)
      \<and> length (source_rejections st) = length (sources st)
      \<and> length (source_total_time st) = length (sources st)
      \<and> length (source_waiting_time st) = length (sources st)
      \<and> length (device_busy_time st) = length (devices st))"

definition devices_ok :: "SimulationModel \<Rightarrow> bool" where
  "devices_ok st =
     (selector_ok (device_selector st) (devices st)
      \<and> (\<forall>i<length (devices st). device_id (devices st ! i) = int i))"

definition event_ok :: "nat \<Rightarrow> nat \<Rightarrow> Event \<Rightarrow> bool" where
  "event_ok ns nd e =
     (0 \<le> entity_id e
      \<and> entity_id e < int (case type e of ARRIVAL \<Rightarrow> ns | DEPARTURE \<Rightarrow> nd))"

definition calendar_ok :: "SimulationModel \<Rightarrow> bool" where
  "calendar_ok st =
     (\<forall>e\<in>set (calendar st). event_ok (length (sources st)) (length (devices st)) e)"

definition store_ok :: "ptr option \<Rightarrow> SimulationModel \<Rightarrow> bool" where
  "store_ok pending st =
     (distinct (held pending st)
      \<and> (\<forall>p\<in>set (held pending st). \<exists>r. store st p = Some r \<and> 0 \<le> source_id r
             \<and> source_id r < int (length (sources st)))
      \<and> (\<forall>p. store st p \<noteq> None \<longrightarrow> p < next_ptr st))"

definition capacity_ok :: "SimulationModel \<Rightarrow> bool" where
  "capacity_ok st =
     (1 \<le> max_size (buffer st) \<and> max_size (buffer st) < 2 ^ 64
      \<and> int (length (queue (buffer st))) \<le> max_size (buffer st))"

definition static_ok :: "SimulationModel \<Rightarrow> bool" where
  "static_ok st =
     (max_size (buffer st) = 3
      \<and> (\<forall>s\<in>set (sources st). 3 / 2 \<le> dist_min s \<and> dist_min s < dist_max s))"

definition conserved :: "ptr option \<Rightarrow> SimulationModel \<Rightarrow> bool" where
  "conserved pending st =
     (requests_generated st
        = requests_served st + requests_rejected st + int (length (held pending st)))"

definition model_inv :: "ptr option \<Rightarrow> SimulationModel \<Rightarrow> bool" where
  "model_inv pending st =
     (vectors_ok st \<and> devices_ok st \<and> calendar_ok st \<and> store_ok pending st
      \<and> capacity_ok st \<and> static_ok st \<and> conserved pending st)"

text \<open>A source of variates: the smallest interval of each source, one tenth as service time.\<close>

definition const_variates :: VariateSource where
  "const_variates = \<lparr>uniform_real = (\<lambda>g a b. a), exponential = (\<lambda>g l. 1 / 10)\<rparr>"

text \<open>
  The variates are in the range of their distribution: a uniform variate on \<open>[a, b)\<close> is
  in that interval, an exponential variate is not negative.
\<close>

definition variates_ok :: "VariateSource \<Rightarrow> bool" where
  "variates_ok vs =
     ((\<forall>g a b. a < b \<longrightarrow> a \<le> uniform_real vs g a b \<and> uniform_real vs g a b < b)
      \<and> (\<forall>g l. 0 \<le> exponential vs g l))"

text \<open>
  The invariant of the clock: no pending event is in the past, no request arrived in the
  future, and a request in service started between its arrival and now.
\<close>

definition time_ok :: "SimulationModel \<Rightarrow> bool" where
  "time_ok st =
     ((\<forall>e\<in>set (calendar st). current_time st \<le> time e)
      \<and> (\<forall>p r. store st p = Some r \<longrightarrow> arrival_time r \<le> current_time st)
      \<and> (\<forall>p\<in>set (in_service (devices st)). \<forall>r. store st p = Some r \<longrightarrow>
            arrival_time r \<le> start_service_time r \<and> start_service_time r \<le> current_time st))"

text \<open>The state after lines 326-331 of \<open>processArrival\<close>.\<close>

definition arrived :: "VariateSource \<Rightarrow> int \<Rightarrow> SimulationModel \<Rightarrow> SimulationModel" where
  "arrived vs sid st =
     st\<lparr>requests_generated := requests_generated st + 1,
        source_requests := (source_requests st)[nat sid := source_requests st ! nat sid + 1],
        store := (store st)(next_ptr st \<mapsto>
                   Request_init sid (source_requests st ! nat sid + 1) (current_time st)),
        next_ptr := Suc (next_ptr st),
        generator := Suc (generator st),
        calendar := calendar_push
          (Event_init (current_time st + uniform_real vs (generator st)
                (dist_min (sources st ! nat sid)) (dist_max (sources st ! nat sid))) ARRIVAL sid None)
          (calendar st)\<rparr>"

text \<open>
  The state after the first iteration of the loop under \<open>const_variates\<close>: the request of
  source 0 arrived at 3/2 and is in service on device 0 until 8/5.
\<close>

definition after_first_arrival :: SimulationModel where
  "after_first_arrival =
     \<lparr>calendar = [Event_init 2 ARRIVAL 1 None,
                  Event_init (5/2) ARRIVAL 2 None,
                  Event_init 3 ARRIVAL 0 None,
                  Event_init (8/5) DEPARTURE 0 (Some 0)],
      sources = [Source_init 0 (3/2) (5/2), Source_init 1 2 3, Source_init 2 (5/2) (7/2)],
      devices = [(Device_init 0 2)\<lparr>current_request := Some 0\<rparr>, Device_init 1 3],
      buffer = Buffer_init 3,
      device_selector = \<lparr>last_used = 0, num_devices = 2\<rparr>,
      generator = 5,
      current_time = 3/2,
      current_serving_source = -1,
      requests_generated = 1,
      requests_served = 0,
      requests_rejected = 0,
      source_requests = [1, 0, 0],
      source_rejections = [0, 0, 0],
      source_total_time = [0, 0, 0],
      source_waiting_time = [0, 0, 0],
      device_busy_time = [0, 0],
      store = [0 \<mapsto> (Request_init 0 1 (3/2))\<lparr>start_service_time := 3/2\<rparr>],
      next_ptr = 1\<rparr>"

text \<open>
  The measure of the loop. An arrival at time \<open>t\<close> is followed by at most
  \<open>arrivals_left max_time t\<close> further arrivals of its source before \<open>max_time\<close>, because
  two arrivals of a source are at least 3/2 apart; each arrival leads to at most one
  departure, and each request in the buffer to at most one.
\<close>

definition arrivals_left :: "real \<Rightarrow> real \<Rightarrow> nat" where
  "arrivals_left max_time t = nat \<lceil>(max_time - t) / (3 / 2)\<rceil>"

definition event_weight :: "real \<Rightarrow> Event \<Rightarrow> nat" where
  "event_weight max_time e =
     (case type e of ARRIVAL \<Rightarrow> 2 * arrivals_left max_time (time e) + 2 | DEPARTURE \<Rightarrow> 1)"

definition weight :: "real \<Rightarrow> SimulationModel \<Rightarrow> nat" where
  "weight max_time st =
     sum_list (map (event_weight max_time) (calendar st)) + length (queue (buffer st))"

definition loop_measure :: "real \<Rightarrow> int \<Rightarrow> SimulationModel \<Rightarrow> nat" where
  "loop_measure max_time max_requests st =
     (if loop_guard max_time max_requests st then Suc (weight max_time st) else 0)"








text \<open>A way of deciding the ties: always the first of the earliest events.\<close>

definition no_ties :: "nat \<Rightarrow> nat" where
  "no_ties k = 0"

section \<open>The scans of the buffer\<close>

lemma refill_append: "refill buf temp = buf @ temp"
  by (induction temp arbitrary: buf) auto

lemma remove_scan_filter: "remove_scan request buf temp = temp @ filter (\<lambda>q. q \<noteq> request) buf"
  by (induction buf arbitrary: temp) auto

lemma queue_removeRequest: "queue (removeRequest p b) = filter (\<lambda>q. q \<noteq> p) (queue b)"
  by (simp add: removeRequest_def refill_append remove_scan_filter)

lemma max_size_removeRequest: "max_size (removeRequest p b) = max_size b"
  by (simp add: removeRequest_def)

lemma removeRequest_absent: "p \<notin> set (queue b) \<Longrightarrow> removeRequest p b = b"
proof -
  assume "p \<notin> set (queue b)"
  then have "filter (\<lambda>q. q \<noteq> p) (queue b) = queue b"
    by (induction "queue b") (auto simp: filter_id_conv)
  then show ?thesis
    by (simp add: removeRequest_def refill_append remove_scan_filter)
qed

lemma packet_scan_mset:
  "packet_scan h css buf found temp = Inr (f, temp')
   \<Longrightarrow> mset temp' + mset (opt_list f) = mset temp + mset buf + mset (opt_list found)"
  by (induction buf arbitrary: found temp)
     (auto simp: opt_list_def split: option.splits if_splits)

lemma priority_scan_mset:
  "priority_scan h buf best bs temp = Inr (best', bs', temp')
   \<Longrightarrow> mset temp' + mset (opt_list best') = mset temp + mset buf + mset (opt_list best)"
  by (induction buf arbitrary: best bs temp)
     (auto simp: opt_list_def split: option.splits if_splits)

lemma reject_scan_mset:
  "reject_scan h buf worst ws temp = Inr (worst', temp')
   \<Longrightarrow> mset temp' + mset (opt_list worst') = mset temp + mset buf + mset (opt_list worst)"
  by (induction buf arbitrary: worst ws temp)
     (auto simp: opt_list_def split: option.splits if_splits)

lemma packet_scan_found:
  "\<forall>p\<in>set buf. h p \<noteq> None \<Longrightarrow> packet_scan h css buf (Some f) temp = Inr (Some f, temp @ buf)"
  by (induction buf arbitrary: temp) (auto split: option.splits)

lemma packet_scan_find:
  "\<forall>p\<in>set buf. h p \<noteq> None \<Longrightarrow>
   packet_scan h css buf None temp =
     Inr (find (\<lambda>p. src_of h p = css) buf,
          temp @ (case find (\<lambda>p. src_of h p = css) buf of None \<Rightarrow> buf | Some f \<Rightarrow> remove1 f buf))"
proof (induction buf arbitrary: temp)
  case Nil
  then show ?case by simp
next
  case (Cons req rest)
  then obtain r where r: "h req = Some r" by auto
  show ?case
  proof (cases "source_id r = css")
    case True
    then show ?thesis using r Cons.prems by (simp add: src_of_def packet_scan_found)
  next
    case False
    have "find (\<lambda>p. src_of h p = css) rest \<noteq> Some req"
      using False r by (auto simp: find_Some_iff src_of_def)
    then show ?thesis using False r Cons by (auto simp: src_of_def split: option.splits)
  qed
qed

lemma priority_scan_first_min:
  "\<forall>p\<in>set (b # buf). h p \<noteq> None \<Longrightarrow>
   \<exists>x temp'. priority_scan h buf (Some b) (src_of h b) temp = Inr (Some x, src_of h x, temp')
     \<and> find (\<lambda>p. \<forall>q\<in>set (b # buf). src_of h p \<le> src_of h q) (b # buf) = Some x"
proof (induction buf arbitrary: b temp)
  case Nil
  then show ?case by simp
next
  case (Cons req rest)
  then obtain r where r: "h req = Some r" by auto
  show ?case
  proof (cases "src_of h req < src_of h b")
    case True
    from Cons.prems have "\<forall>p\<in>set (req # rest). h p \<noteq> None" by simp
    from Cons.IH[OF this, of "temp @ [b]"] obtain x temp' where
      x: "priority_scan h rest (Some req) (src_of h req) (temp @ [b]) = Inr (Some x, src_of h x, temp')"
         "find (\<lambda>p. \<forall>q\<in>set (req # rest). src_of h p \<le> src_of h q) (req # rest) = Some x"
      by blast
    have eq: "find (\<lambda>p. \<forall>q\<in>set (b # req # rest). src_of h p \<le> src_of h q) (req # rest)
            = find (\<lambda>p. \<forall>q\<in>set (req # rest). src_of h p \<le> src_of h q) (req # rest)"
      using True by (intro find_cong) auto
    show ?thesis using True x r eq by (auto simp: src_of_def)
  next
    case False
    from Cons.prems have "\<forall>p\<in>set (b # rest). h p \<noteq> None" by simp
    from Cons.IH[OF this, of "temp @ [req]"] obtain x temp' where
      x: "priority_scan h rest (Some b) (src_of h b) (temp @ [req]) = Inr (Some x, src_of h x, temp')"
         "find (\<lambda>p. \<forall>q\<in>set (b # rest). src_of h p \<le> src_of h q) (b # rest) = Some x"
      by blast
    have eq: "find (\<lambda>p. \<forall>q\<in>set (b # req # rest). src_of h p \<le> src_of h q) rest
            = find (\<lambda>p. \<forall>q\<in>set (b # rest). src_of h p \<le> src_of h q) rest"
      using False by (intro find_cong) auto
    show ?thesis using False x r eq by (auto simp: src_of_def split: if_splits)
  qed
qed

lemma reject_scan_max:
  "\<forall>p\<in>set (w # buf). h p \<noteq> None \<Longrightarrow>
   \<exists>x temp'. reject_scan h buf (Some w) (src_of h w) temp = Inr (Some x, temp')
     \<and> x \<in> set (w # buf) \<and> (\<forall>q\<in>set (w # buf). src_of h q \<le> src_of h x)"
proof (induction buf arbitrary: w temp)
  case Nil
  then show ?case by simp
next
  case (Cons req rest)
  then obtain r where r: "h req = Some r" by auto
  show ?case
  proof (cases "src_of h req > src_of h w")
    case True
    from Cons.prems have "\<forall>p\<in>set (req # rest). h p \<noteq> None" by simp
    from Cons.IH[OF this, of "temp @ [w]"] obtain x temp' where
      x: "reject_scan h rest (Some req) (src_of h req) (temp @ [w]) = Inr (Some x, temp')"
         "x \<in> set (req # rest)" "\<forall>q\<in>set (req # rest). src_of h q \<le> src_of h x"
      by blast
    then have "src_of h w \<le> src_of h x" using True by force
    then show ?thesis using True x r by (auto simp: src_of_def)
  next
    case False
    from Cons.prems have "\<forall>p\<in>set (w # rest). h p \<noteq> None" by simp
    from Cons.IH[OF this, of "temp @ [req]"] obtain x temp' where
      x: "reject_scan h rest (Some w) (src_of h w) (temp @ [req]) = Inr (Some x, temp')"
         "x \<in> set (w # rest)" "\<forall>q\<in>set (w # rest). src_of h q \<le> src_of h x"
      by blast
    then have "src_of h req \<le> src_of h x" using False by force
    then show ?thesis using False x r by (auto simp: src_of_def)
  qed
qed

lemma select_by_priority_first_min:
  assumes "\<forall>p\<in>set (queue b). \<exists>r. h p = Some r \<and> source_id r < INT_MAX" and "queue b \<noteq> []"
  shows "\<exists>x b'. select_by_priority h b css = Inr (Some x, b', src_of h x)
           \<and> find (\<lambda>p. \<forall>q\<in>set (queue b). src_of h p \<le> src_of h q) (queue b) = Some x"
proof -
  from assms obtain req rest where q: "queue b = req # rest" by (cases "queue b") auto
  with assms obtain r where r: "h req = Some r" "source_id r < INT_MAX" by auto
  have live: "\<forall>p\<in>set (req # rest). h p \<noteq> None" using assms(1) q by auto
  from priority_scan_first_min[OF live, of "[]"] obtain x temp' where
    x: "priority_scan h rest (Some req) (src_of h req) [] = Inr (Some x, src_of h x, temp')"
       "find (\<lambda>p. \<forall>q\<in>set (req # rest). src_of h p \<le> src_of h q) (req # rest) = Some x"
    by blast
  have "priority_scan h (queue b) None INT_MAX [] = Inr (Some x, src_of h x, temp')"
    using q r x(1) by (simp add: src_of_def)
  then show ?thesis using q x(2) by (simp add: select_by_priority_def)
qed

lemma select_by_priority_mset:
  "select_by_priority h b css = Inr (r, b', css')
   \<Longrightarrow> mset (queue b') + mset (opt_list r) = mset (queue b) \<and> max_size b' = max_size b"
  by (auto simp: select_by_priority_def refill_append opt_list_def
           split: if_splits sum.splits dest!: priority_scan_mset)

lemma getNextRequest_mset:
  "getNextRequest h b css = Inr (r, b', css')
   \<Longrightarrow> mset (queue b') + mset (opt_list r) = mset (queue b) \<and> max_size b' = max_size b"
proof -
  assume a: "getNextRequest h b css = Inr (r, b', css')"
  show ?thesis
  proof (cases "queue b \<noteq> [] \<and> css \<noteq> -1")
    case False
    with a show ?thesis
      by (auto simp: getNextRequest_def opt_list_def split: if_splits dest: select_by_priority_mset)
  next
    case True
    with a obtain found temp where
      ps: "packet_scan h css (queue b) None [] = Inr (found, temp)"
      by (auto simp: getNextRequest_def split: sum.splits)
    from packet_scan_mset[OF ps]
    have m: "mset temp + mset (opt_list found) = mset (queue b)" by (simp add: opt_list_def)
    show ?thesis
    proof (cases found)
      case None
      with a True ps have "select_by_priority h (b\<lparr>queue := temp\<rparr>) (-1) = Inr (r, b', css')"
        by (simp add: getNextRequest_def refill_append)
      from select_by_priority_mset[OF this] m None show ?thesis by (simp add: opt_list_def)
    next
      case (Some f)
      with a True ps m show ?thesis
        by (auto simp: getNextRequest_def refill_append)
    qed
  qed
qed

lemma findRequestToReject_mset:
  "findRequestToReject h b = Inr (r, b')
   \<Longrightarrow> mset (queue b') + mset (opt_list r) = mset (queue b) \<and> max_size b' = max_size b"
  by (auto simp: findRequestToReject_def refill_append opt_list_def
           split: if_splits sum.splits dest!: reject_scan_mset)

section \<open>Claims about the buffer\<close>

text \<open>
  C1. \<open>getNextRequest\<close> returns the request and leaves the marker that the selection
  discipline of the specification prescribes: a request of the marked source, with the marker
  unchanged, when the marker names a source that has a request in the buffer; otherwise the
  first request of smallest source id, with the marker set to that id; none and the marker
  none on an empty buffer. The requests of the buffer are live and their source ids are
  below \<open>INT_MAX\<close>, the start value of the scan.
\<close>

theorem getNextRequest_refines_spec:
  assumes "\<forall>p\<in>set (queue b). \<exists>r. h p = Some r \<and> source_id r < INT_MAX"
  shows "\<exists>b'. getNextRequest h b marker =
           Inr (fst (selectNext_spec h (queue b) marker), b',
                snd (selectNext_spec h (queue b) marker))"
proof (cases "queue b = []")
  case True
  then show ?thesis by (simp add: getNextRequest_def selectNext_spec_def)
next
  case False
  have live: "\<forall>p\<in>set (queue b). h p \<noteq> None" using assms by auto
  show ?thesis
  proof (cases "marker \<noteq> -1 \<and> (\<exists>p\<in>set (queue b). src_of h p = marker)")
    case True
    then obtain f where f: "find (\<lambda>p. src_of h p = marker) (queue b) = Some f"
      by (cases "find (\<lambda>p. src_of h p = marker) (queue b)") (auto simp: find_None_iff)
    show ?thesis using True False f
      by (simp add: getNextRequest_def selectNext_spec_def packet_scan_find[OF live])
  next
    case nomatch: False
    obtain x b' where x: "select_by_priority h b (-1) = Inr (Some x, b', src_of h x)"
        "find (\<lambda>p. \<forall>q\<in>set (queue b). src_of h p \<le> src_of h q) (queue b) = Some x"
      using select_by_priority_first_min[OF assms False] by blast
    show ?thesis
    proof (cases "marker = -1")
      case True
      then show ?thesis using False x nomatch
        by (simp add: getNextRequest_def selectNext_spec_def)
    next
      case m: False
      with nomatch have none: "find (\<lambda>p. src_of h p = marker) (queue b) = None"
        by (auto simp: find_None_iff)
      have "b\<lparr>queue := queue b\<rparr> = b" by simp
      then show ?thesis using False x nomatch m none
        by (simp add: getNextRequest_def selectNext_spec_def packet_scan_find[OF live] refill_append)
    qed
  qed
qed

theorem getNextRequest_refines_spec_witness:
  "\<exists>b'. getNextRequest example_store example_buffer 1 = Inr (Some 0, b', 1)"
proof -
  have h: "\<forall>p\<in>set (queue example_buffer). \<exists>r. example_store p = Some r \<and> source_id r < INT_MAX"
    by (simp add: example_buffer_def example_store_def Request_init_def INT_MAX_def)
  have s: "selectNext_spec example_store (queue example_buffer) 1 = (Some 0, 1)"
    by (simp add: selectNext_spec_def example_buffer_def example_store_def Request_init_def
          src_of_def)
  from getNextRequest_refines_spec[OF h, of 1] show ?thesis by (simp add: s)
qed

text \<open>
  C2. On a non-empty buffer of live requests with source ids from 0 on,
  \<open>findRequestToReject\<close> returns a request of the buffer whose source id is the largest
  one in the buffer; on the buffer with the source ids 1, 2, 0 it returns the request of
  source 2.
\<close>

theorem findRequestToReject_largest:
  assumes "queue b \<noteq> []" and "\<forall>p\<in>set (queue b). \<exists>r. h p = Some r \<and> 0 \<le> source_id r"
  shows "(\<exists>x b'. findRequestToReject h b = Inr (Some x, b') \<and> x \<in> set (queue b)
            \<and> (\<forall>q\<in>set (queue b). src_of h q \<le> src_of h x))
         \<and> fst (projr (findRequestToReject example_store example_buffer)) = Some 1
         \<and> src_of example_store 1 = 2"
proof -
  from assms obtain req rest where q: "queue b = req # rest" by (cases "queue b") auto
  with assms obtain r where r: "h req = Some r" "0 \<le> source_id r" by auto
  have live: "\<forall>p\<in>set (req # rest). h p \<noteq> None" using assms(2) q by auto
  from reject_scan_max[OF live, of "[]"] obtain x temp' where
    x: "reject_scan h rest (Some req) (src_of h req) [] = Inr (Some x, temp')"
       "x \<in> set (req # rest)" "\<forall>q\<in>set (req # rest). src_of h q \<le> src_of h x"
    by blast
  have "reject_scan h (queue b) None (-1) [] = Inr (Some x, temp')"
    using q r x(1) by (simp add: src_of_def)
  then have general: "\<exists>x b'. findRequestToReject h b = Inr (Some x, b') \<and> x \<in> set (queue b)
            \<and> (\<forall>q\<in>set (queue b). src_of h q \<le> src_of h x)"
    using q x(2,3) by (simp add: findRequestToReject_def)
  have "findRequestToReject example_store example_buffer
          = Inr (Some 1, \<lparr>queue = [0, 2], max_size = 3\<rparr>)"
    by (simp add: findRequestToReject_def example_store_def example_buffer_def Request_init_def)
  moreover have "src_of example_store 1 = 2"
    by (simp add: src_of_def example_store_def Request_init_def)
  ultimately show ?thesis using general by simp
qed

theorem findRequestToReject_largest_witness:
  "\<exists>x b'. findRequestToReject example_store example_buffer = Inr (Some x, b')
     \<and> x \<in> set (queue example_buffer)
     \<and> (\<forall>q\<in>set (queue example_buffer). src_of example_store q \<le> src_of example_store x)"
proof -
  have h1: "queue example_buffer \<noteq> []" by (simp add: example_buffer_def)
  have h2: "\<forall>p\<in>set (queue example_buffer). \<exists>r. example_store p = Some r \<and> 0 \<le> source_id r"
    by (simp add: example_buffer_def example_store_def Request_init_def)
  from findRequestToReject_largest[OF h1 h2] show ?thesis by blast
qed

text \<open>
  C8, as the claim states it: \<open>getNextRequest\<close> would leave the buffer as it was. On the
  example buffer it returns the request at address 2 and the buffer afterwards no longer
  holds it (and holds the two others in exchanged order).
\<close>

theorem getNextRequest_changes_buffer:
  "getNextRequest example_store example_buffer (-1) = Inr (Some 2, \<lparr>queue = [1, 0], max_size = 3\<rparr>, 0)
   \<and> \<lparr>queue = [1, 0], max_size = 3\<rparr> \<noteq> example_buffer
   \<and> 2 \<in> set (queue example_buffer) \<and> 2 \<notin> set (queue \<lparr>queue = [1, 0], max_size = 3\<rparr>)"
  by (simp add: getNextRequest_def select_by_priority_def example_store_def example_buffer_def
        Request_init_def INT_MAX_def)

text \<open>
  C8, amended: \<open>getNextRequest\<close> itself takes the request it returns out of the buffer.
  The buffer afterwards holds exactly the other requests (their order may differ), and the
  call of \<open>removeRequest\<close> that follows in the engine finds nothing to delete.
\<close>

theorem getNextRequest_removes_returned:
  assumes "getNextRequest h b marker = Inr (Some p, b', marker')" and "distinct (queue b)"
  shows "mset (queue b) = add_mset p (mset (queue b')) \<and> p \<notin> set (queue b')
         \<and> max_size b' = max_size b \<and> removeRequest p b' = b'"
proof -
  from getNextRequest_mset[OF assms(1)]
  have m: "mset (queue b) = add_mset p (mset (queue b'))" and s: "max_size b' = max_size b"
    by (simp_all add: opt_list_def)
  have "distinct (p # queue b')"
    using assms(2) m mset_eq_imp_distinct_iff[of "queue b" "p # queue b'"] by simp
  then have "p \<notin> set (queue b')" by simp
  with m s show ?thesis by (simp add: removeRequest_absent)
qed

theorem getNextRequest_removes_returned_witness:
  "mset (queue example_buffer) = add_mset 2 (mset [1, 0]) \<and> 2 \<notin> set [1, 0::nat]
   \<and> removeRequest 2 \<lparr>queue = [1, 0], max_size = 3\<rparr> = \<lparr>queue = [1, 0], max_size = 3\<rparr>"
proof -
  have h1: "getNextRequest example_store example_buffer (-1)
              = Inr (Some 2, \<lparr>queue = [1, 0], max_size = 3\<rparr>, 0)"
    by (simp add: getNextRequest_def select_by_priority_def example_store_def example_buffer_def
          Request_init_def INT_MAX_def)
  have h2: "distinct (queue example_buffer)" by (simp add: example_buffer_def)
  from getNextRequest_removes_returned[OF h1 h2] show ?thesis by simp
qed

section \<open>The device selector\<close>

declare free_scan.simps [simp del]

lemma smod_nonneg: "0 \<le> k \<Longrightarrow> 0 < l \<Longrightarrow> k smod l = k mod (l::int)"
  by (simp add: signed_modulo_int_def sgn_if)

lemma int_add_small:
  "0 \<le> a \<Longrightarrow> 0 \<le> b \<Longrightarrow> a + b \<le> 2147483647 \<Longrightarrow> int_add a b = Inr (a + b)"
  by (simp add: int_add_def INT_MAX_def INT_MIN_def)

lemma free_scan_find:
  assumes "num_devices sel = int (length devs)" and "0 \<le> start" and "0 \<le> i"
    and "start < int (length devs)" and "int (length devs) \<le> 1073741824"
  shows "free_scan sel devs start i =
     Inr (case find (\<lambda>idx. isFree (devs ! idx))
                 (map (\<lambda>j. (nat start + j) mod length devs) [nat i..<length devs]) of
            None \<Rightarrow> (None, sel)
          | Some idx \<Rightarrow> (Some idx, sel\<lparr>last_used := int idx\<rparr>))"
  using assms
proof (induction sel devs start i rule: free_scan.induct)
  case (1 sel devs start i)
  show ?case
  proof (cases "i < num_devices sel")
    case False
    then show ?thesis using 1(2,4) by (subst free_scan.simps) simp
  next
    case True
    define n where "n = length devs"
    have npos: "0 < n" and iless: "nat i < n" using True 1(2,4) by (auto simp: n_def)
    have ia: "int_add start i = Inr (start + i)"
      using True 1(2,3,4,5,6) by (intro int_add_small) simp_all
    have sm: "(start + i) smod num_devices sel = int ((nat start + nat i) mod n)"
      using 1(2,3,4) npos by (simp add: smod_nonneg n_def zmod_int)
    have inr: "(nat start + nat i) mod n < n" using npos by simp
    have va: "vec_at devs (int ((nat start + nat i) mod n)) = Inr (devs ! ((nat start + nat i) mod n))"
      using inr by (simp add: vec_at_def n_def)
    have upt: "[nat i..<n] = nat i # [nat (i + 1)..<n]"
      using iless 1(4) by (simp add: upt_conv_Cons nat_add_distrib)
    show ?thesis
    proof (cases "isFree (devs ! ((nat start + nat i) mod n))")
      case t: True
      then show ?thesis using True sm va upt ia
        by (subst free_scan.simps) (simp add: n_def[symmetric])
    next
      case f: False
      have ih: "free_scan sel devs start (i + 1) =
          Inr (case find (\<lambda>idx. isFree (devs ! idx))
                 (map (\<lambda>j. (nat start + j) mod length devs) [nat (i + 1)..<length devs]) of
            None \<Rightarrow> (None, sel)
          | Some idx \<Rightarrow> (Some idx, sel\<lparr>last_used := int idx\<rparr>))"
        using 1(1)[OF True ia _ _ 1(2) 1(3) _ 1(5) 1(6)] va f sm 1(4) by simp
      show ?thesis using True sm va upt f ih ia
        by (subst free_scan.simps) (simp add: n_def[symmetric])
    qed
  qed
qed

lemma getFreeDevice_spec:
  assumes "selector_ok sel devs"
  shows "getFreeDevice sel devs = Inr (selectFree_spec sel devs)"
proof (cases "devs = []")
  case True
  then show ?thesis by (simp add: getFreeDevice_def selectFree_spec_def)
next
  case False
  then have n: "0 < length devs" by simp
  from assms have nd: "num_devices sel = int (length devs)" and lu: "0 \<le> last_used sel + 1"
    and sz: "int (length devs) \<le> 1073741824" and lt: "last_used sel < int (length devs)"
    by (auto simp: selector_ok_def)
  have ia: "int_add (last_used sel) 1 = Inr (last_used sel + 1)"
    using lu lt sz by (simp add: int_add_def INT_MAX_def INT_MIN_def)
  have st1: "(last_used sel + 1) mod int (length devs) < int (length devs)" using n by simp
  have st: "(last_used sel + 1) smod int (length devs) = (last_used sel + 1) mod int (length devs)"
    using lu n by (simp add: smod_nonneg)
  have st0: "0 \<le> (last_used sel + 1) mod int (length devs)" using n by simp
  have m: "\<And>j. (nat ((last_used sel + 1) mod int (length devs)) + j) mod length devs
            = (nat (last_used sel + 1) + j) mod length devs"
    using lu n by (metis mod_add_left_eq nat_mod_distrib of_nat_0_le_iff nat_int)
  have "getFreeDevice sel devs = free_scan sel devs ((last_used sel + 1) mod int (length devs)) 0"
    using False nd n ia by (simp add: getFreeDevice_def st)
  also have "\<dots> = Inr (selectFree_spec sel devs)"
    using free_scan_find[OF nd st0 _ st1 sz, of 0] by (simp add: selectFree_spec_def m Let_def)
  finally show ?thesis .
qed

lemma free_scan_overflow:
  assumes "num_devices sel = int (length devs)" and "\<forall>d\<in>set devs. \<not> isFree d"
    and "0 \<le> start" and "0 \<le> i" and "i < num_devices sel"
    and "INT_MAX < start + (num_devices sel - 1)"
  shows "free_scan sel devs start i = Inl SignedOverflow"
  using assms
proof (induction sel devs start i rule: free_scan.induct)
  case (1 sel devs start i)
  show ?case
  proof (cases "start + i \<le> INT_MAX")
    case False
    then have "int_add start i = Inl SignedOverflow" by (simp add: int_add_def)
    then show ?thesis using 1(6) by (subst free_scan.simps) simp
  next
    case True
    then have ia: "int_add start i = Inr (start + i)"
      using 1(4,5) by (simp add: int_add_def INT_MIN_def)
    define n where "n = length devs"
    have npos: "0 < n" using 1(2,5,6) by (auto simp: n_def)
    have sm: "(start + i) smod num_devices sel = int ((nat start + nat i) mod n)"
      using 1(2,4,5) npos by (simp add: smod_nonneg n_def zmod_int)
    have inr: "(nat start + nat i) mod n < n" using npos by simp
    then have va: "vec_at devs (int ((nat start + nat i) mod n)) = Inr (devs ! ((nat start + nat i) mod n))"
      by (simp add: vec_at_def n_def)
    have busy: "\<not> isFree (devs ! ((nat start + nat i) mod n))"
      using 1(3) inr by (simp add: n_def)
    have nx: "i + 1 < num_devices sel" using True 1(7) by simp
    have ih: "free_scan sel devs start (i + 1) = Inl SignedOverflow"
      using 1(1)[OF 1(6) ia _ _ 1(2) 1(3) 1(4) _ nx 1(7)] va busy sm 1(5) by simp
    show ?thesis using 1(6) ia sm va busy ih by (subst free_scan.simps) simp
  qed
qed

lemma free_scan_skips_busy:
  assumes "num_devices sel = int (length devs)" and "k < length devs" and "isFree (devs ! k)"
    and "\<forall>j<k. \<not> isFree (devs ! j)" and "0 \<le> i" and "nat i \<le> k"
    and "int (length devs) \<le> INT_MAX"
  shows "free_scan sel devs 0 i = Inr (Some k, sel\<lparr>last_used := int k\<rparr>)"
  using assms
proof (induction sel devs "0::int" i rule: free_scan.induct)
  case (1 sel devs i)
  have lt: "i < num_devices sel" using 1(2,3,6,7) by simp
  have ia: "int_add 0 i = Inr i" using 1(6,8) lt 1(2) by (simp add: int_add_def INT_MIN_def)
  have sm: "i smod num_devices sel = i" using lt 1(6) by (simp add: smod_nonneg)
  have va: "vec_at devs i = Inr (devs ! nat i)" using lt 1(2,6) by (simp add: vec_at_def)
  show ?case
  proof (cases "nat i = k")
    case True
    then show ?thesis using lt ia sm va 1(4,6) by (subst free_scan.simps) auto
  next
    case False
    then have busy: "\<not> isFree (devs ! nat i)" using 1(5,7) by simp
    have nx: "nat (i + 1) \<le> k" using False 1(6,7) by simp
    have ih: "free_scan sel devs 0 (i + 1) = Inr (Some k, sel\<lparr>last_used := int k\<rparr>)"
      using 1(1)[OF lt ia _ _ 1(2,3,4,5) _ nx 1(8)] va busy sm 1(6) by simp
    show ?thesis using lt ia sm va busy ih by (subst free_scan.simps) simp
  qed
qed

text \<open>
  C5, as the claim states it, for every device pool and every cursor state. The selector
  scans \<open>num_devices\<close> indices, the number it was constructed with, whatever the size of
  the pool: a selector for one device returns none on \<open>mismatched_pool\<close>, whose second
  device is free and is the first free device of the rotated order. And the index
  \<^verbatim>\<open>start_index + i\<close> is an \<^verbatim>\<open>int\<close>: on the pool of \<open>2 ^ 30 + 1\<close> devices the first call
  returns device \<open>2 ^ 30 - 1\<close>; once that device is busy, the second call scans from
  index \<open>2 ^ 30\<close> and the sum overflows at \<open>i = 2 ^ 30\<close>, instead of returning none.
\<close>

theorem getFreeDevice_outside_its_pool:
  "getFreeDevice (DeviceSelector_init 1) mismatched_pool = Inr (None, DeviceSelector_init 1)
   \<and> isFree (mismatched_pool ! 1)
   \<and> fst (selectFree_spec (DeviceSelector_init 1) mismatched_pool) = Some 1
   \<and> getFreeDevice (DeviceSelector_init 1073741825) huge_pool
        = Inr (Some 1073741823, \<lparr>last_used = 1073741823, num_devices = 1073741825\<rparr>)
   \<and> getFreeDevice \<lparr>last_used = 1073741823, num_devices = 1073741825\<rparr> huge_busy_pool
        = Inl SignedOverflow
   \<and> huge_busy_pool = huge_pool[1073741823 := (huge_pool ! 1073741823)\<lparr>current_request := Some 0\<rparr>]
   \<and> int (length huge_pool) = 1073741825"
proof -
  have a: "getFreeDevice (DeviceSelector_init 1) mismatched_pool = Inr (None, DeviceSelector_init 1)"
    by (simp add: getFreeDevice_def free_scan.simps mismatched_pool_def DeviceSelector_init_def
          int_add_def INT_MAX_def INT_MIN_def vec_at_def isFree_def Device_init_def
          signed_modulo_int_def)
  have b: "isFree (mismatched_pool ! 1)"
    by (simp add: mismatched_pool_def isFree_def Device_init_def)
  have u: "[0..<2] = [0, Suc 0]" by (simp add: upt_rec)
  have c: "fst (selectFree_spec (DeviceSelector_init 1) mismatched_pool) = Some 1"
    by (simp add: selectFree_spec_def mismatched_pool_def DeviceSelector_init_def isFree_def
          Device_init_def u)
  let ?sel = "\<lparr>last_used = 1073741823, num_devices = 1073741825\<rparr>"
  have len: "int (length huge_busy_pool) = 1073741825" by (simp add: huge_busy_pool_def)
  have "free_scan ?sel huge_busy_pool 1073741824 0 = Inl SignedOverflow"
    by (rule free_scan_overflow) (simp_all add: len huge_busy_pool_def isFree_def INT_MAX_def)
  then have d: "getFreeDevice ?sel huge_busy_pool = Inl SignedOverflow"
    by (simp add: getFreeDevice_def int_add_def INT_MAX_def INT_MIN_def signed_modulo_int_def)
       (simp add: huge_busy_pool_def)
  have len': "length huge_pool = 1073741825" by (simp add: huge_pool_def)
  have fr: "isFree (huge_pool ! 1073741823)"
    by (simp add: huge_pool_def nth_append isFree_def Device_init_def)
  have bs: "\<forall>j<1073741823. \<not> isFree (huge_pool ! j)"
    by (simp add: huge_pool_def nth_append isFree_def)
  have "free_scan (DeviceSelector_init 1073741825) huge_pool 0 0
          = Inr (Some 1073741823, (DeviceSelector_init 1073741825)\<lparr>last_used := int 1073741823\<rparr>)"
    by (rule free_scan_skips_busy) (simp_all add: len' fr bs DeviceSelector_init_def INT_MAX_def)
  then have e: "getFreeDevice (DeviceSelector_init 1073741825) huge_pool
        = Inr (Some 1073741823, \<lparr>last_used = 1073741823, num_devices = 1073741825\<rparr>)"
    by (simp add: getFreeDevice_def int_add_def INT_MAX_def INT_MIN_def signed_modulo_int_def
          DeviceSelector_init_def)
       (simp add: huge_pool_def)
  have "replicate (1073741823 + 2) x = replicate 1073741823 x @ [x, x]" for x :: Device
    unfolding replicate_add by (simp add: numeral_2_eq_2)
  then have rp: "replicate 1073741825 x = replicate 1073741823 x @ [x, x]" for x :: Device
    by simp
  have f: "huge_busy_pool = huge_pool[1073741823 := (huge_pool ! 1073741823)\<lparr>current_request := Some 0\<rparr>]"
    by (simp add: huge_busy_pool_def huge_pool_def nth_append list_update_append Device_init_def rp)
  show ?thesis using a b c d e f len' by simp
qed

text \<open>
  C5, amended. For a selector that belongs to the pool (it was constructed with the size
  of the pool, the pool has at most \<open>2 ^ 30\<close> devices, and the cursor is \<open>-1\<close> or the index
  last returned), \<open>getFreeDevice\<close> is the rotated scan of the specification: the first free
  device after the last one returned, with the cursor moved to it, or none with the cursor
  unchanged. With the two devices free, three calls in a row return device 0, device 1
  and device 0.
\<close>

theorem getFreeDevice_round_robin:
  assumes "selector_ok sel devs"
  shows "getFreeDevice sel devs = Inr (selectFree_spec sel devs)
    \<and> getFreeDevice (DeviceSelector_init 2) two_free
        = Inr (Some 0, \<lparr>last_used = 0, num_devices = 2\<rparr>)
    \<and> getFreeDevice \<lparr>last_used = 0, num_devices = 2\<rparr> two_free
        = Inr (Some 1, \<lparr>last_used = 1, num_devices = 2\<rparr>)
    \<and> getFreeDevice \<lparr>last_used = 1, num_devices = 2\<rparr> two_free
        = Inr (Some 0, \<lparr>last_used = 0, num_devices = 2\<rparr>)"
proof -
  have ok: "selector_ok (DeviceSelector_init 2) two_free"
    "selector_ok \<lparr>last_used = 0, num_devices = 2\<rparr> two_free"
    "selector_ok \<lparr>last_used = 1, num_devices = 2\<rparr> two_free"
    by (simp_all add: selector_ok_def DeviceSelector_init_def two_free_def)
  have upt2: "[0..<2] = [0, Suc 0]" by (simp add: upt_rec)
  have "selectFree_spec (DeviceSelector_init 2) two_free = (Some 0, \<lparr>last_used = 0, num_devices = 2\<rparr>)"
    "selectFree_spec \<lparr>last_used = 0, num_devices = 2\<rparr> two_free
       = (Some 1, \<lparr>last_used = 1, num_devices = 2\<rparr>)"
    "selectFree_spec \<lparr>last_used = 1, num_devices = 2\<rparr> two_free
       = (Some 0, \<lparr>last_used = 0, num_devices = 2\<rparr>)"
    by (simp_all add: selectFree_spec_def DeviceSelector_init_def two_free_def Device_init_def
          isFree_def upt2)
  then show ?thesis
    using getFreeDevice_spec[OF assms] ok[THEN getFreeDevice_spec] by simp
qed

theorem getFreeDevice_round_robin_witness:
  "getFreeDevice \<lparr>last_used = 1, num_devices = 2\<rparr>
     [Device_init 0 2, (Device_init 1 3)\<lparr>current_request := Some 7\<rparr>]
   = Inr (Some 0, \<lparr>last_used = 0, num_devices = 2\<rparr>)
   \<and> getFreeDevice \<lparr>last_used = 0, num_devices = 2\<rparr>
     [Device_init 0 2, (Device_init 1 3)\<lparr>current_request := Some 7\<rparr>]
   = Inr (Some 0, \<lparr>last_used = 0, num_devices = 2\<rparr>)"
proof -
  let ?devs = "[Device_init 0 2, (Device_init 1 3)\<lparr>current_request := Some 7\<rparr>]"
  have h1: "selector_ok \<lparr>last_used = 1, num_devices = 2\<rparr> ?devs"
   and h0: "selector_ok \<lparr>last_used = 0, num_devices = 2\<rparr> ?devs"
    by (simp_all add: selector_ok_def)
  have upt2: "[0..<2] = [0, Suc 0]" by (simp add: upt_rec)
  have "selectFree_spec \<lparr>last_used = 1, num_devices = 2\<rparr> ?devs
          = (Some 0, \<lparr>last_used = 0, num_devices = 2\<rparr>)"
       "selectFree_spec \<lparr>last_used = 0, num_devices = 2\<rparr> ?devs
          = (Some 0, \<lparr>last_used = 0, num_devices = 2\<rparr>)"
    by (simp_all add: selectFree_spec_def Device_init_def isFree_def upt2)
  then show ?thesis
    using getFreeDevice_round_robin[OF h1] getFreeDevice_round_robin[OF h0] by simp
qed

section \<open>The invariant of the engine\<close>

lemma in_service_update:
  "idx < length devs \<Longrightarrow>
   mset (in_service (devs[idx := d])) + mset (opt_list (current_request (devs ! idx)))
     = mset (in_service devs) + mset (opt_list (current_request d))"
proof (induction devs arbitrary: idx)
  case Nil
  then show ?case by simp
next
  case (Cons a devs)
  then show ?case by (cases idx) (auto simp: in_service_def)
qed

lemma vec_at_Inr: "0 \<le> i \<Longrightarrow> i < int (length v) \<Longrightarrow> vec_at v i = Inr (v ! nat i)"
  by (simp add: vec_at_def)

lemma held_fresh: "store_ok pending st \<Longrightarrow> next_ptr st \<notin> set (held pending st)"
  by (auto simp: store_ok_def)

lemma inv_new_Request:
  assumes "model_inv None st" and "0 \<le> sid" and "sid < int (length (sources st))"
  shows "model_inv (Some (next_ptr st))
           (snd (new_Request sid n t
              (st\<lparr>requests_generated := requests_generated st + 1,
                  source_requests := (source_requests st)[nat sid := n]\<rparr>)))"
proof -
  let ?st = "snd (new_Request sid n t
              (st\<lparr>requests_generated := requests_generated st + 1,
                  source_requests := (source_requests st)[nat sid := n]\<rparr>))"
  have h: "held (Some (next_ptr st)) ?st = next_ptr st # held None st"
    by (simp add: held_def new_Request_def opt_list_def)
  have so: "store_ok None st" using assms(1) by (simp add: model_inv_def)
  have "store_ok (Some (next_ptr st)) ?st"
    unfolding store_ok_def h using so held_fresh[OF so] assms(2,3)
    by (auto simp: store_ok_def new_Request_def Request_init_def less_Suc_eq)
  moreover have "conserved (Some (next_ptr st)) ?st"
    using assms(1) unfolding conserved_def h by (simp add: model_inv_def conserved_def new_Request_def)
  moreover have "vectors_ok ?st" "devices_ok ?st" "calendar_ok ?st" "capacity_ok ?st" "static_ok ?st"
    using assms(1)
    by (simp_all add: model_inv_def vectors_ok_def devices_ok_def calendar_ok_def capacity_ok_def
          static_ok_def new_Request_def)
  ultimately show ?thesis by (simp add: model_inv_def)
qed

lemma inv_schedule:
  assumes "model_inv pending st" and "event_ok (length (sources st)) (length (devices st)) e"
  shows "model_inv pending (st\<lparr>generator := g, calendar := calendar_push e (calendar st)\<rparr>)"
  using assms
  by (simp add: model_inv_def vectors_ok_def devices_ok_def calendar_ok_def capacity_ok_def
        static_ok_def store_ok_def conserved_def held_def calendar_push_def)

lemma selectFree_spec_cases:
  assumes "selectFree_spec sel devs = (fd, sel')"
  shows "(case fd of
            None \<Rightarrow> sel' = sel
          | Some idx \<Rightarrow> idx < length devs \<and> isFree (devs ! idx) \<and> sel' = sel\<lparr>last_used := int idx\<rparr>)"
proof (cases "find (\<lambda>idx. isFree (devs ! idx))
                (map (\<lambda>j. (nat (last_used sel + 1) + j) mod length devs) [0..<length devs])")
  case None
  with assms have "fd = None" "sel' = sel" by (simp_all add: selectFree_spec_def Let_def)
  then show ?thesis by simp
next
  case (Some idx)
  with assms have r: "fd = Some idx" "sel' = sel\<lparr>last_used := int idx\<rparr>"
    by (simp_all add: selectFree_spec_def Let_def)
  from Some obtain i where
    i: "i < length (map (\<lambda>j. (nat (last_used sel + 1) + j) mod length devs) [0..<length devs])"
       "isFree (devs ! (map (\<lambda>j. (nat (last_used sel + 1) + j) mod length devs) [0..<length devs] ! i))"
       "idx = map (\<lambda>j. (nat (last_used sel + 1) + j) mod length devs) [0..<length devs] ! i"
    unfolding find_Some_iff by blast
  from i(1) have il: "i < length devs" by simp
  then have "idx = (nat (last_used sel + 1) + i) mod length devs" using i(3) by simp
  moreover have "0 < length devs" using il by linarith
  ultimately have "idx < length devs" by (simp only: mod_less_divisor)
  moreover have "isFree (devs ! idx)" using i(2,3) by simp
  ultimately show ?thesis using r by simp
qed

lemma rotation_covers:
  assumes "k < (n::nat)"
  shows "\<exists>j<n. (s + j) mod n = k"
proof -
  let ?j = "(k + (n - s mod n)) mod n"
  have "?j < n" using assms by simp
  moreover have "(s + ?j) mod n = k"
  proof -
    have "(s + ?j) mod n = (s mod n + (k + (n - s mod n))) mod n"
      by (metis mod_add_eq mod_mod_trivial)
    also have "s mod n + (k + (n - s mod n)) = k + n"
    proof -
      have "s mod n < n" using assms by simp
      then show ?thesis by arith
    qed
    finally show ?thesis using assms by simp
  qed
  ultimately show ?thesis by blast
qed

lemma selectFree_spec_finds:
  assumes "\<exists>d\<in>set devs. isFree d"
  shows "\<exists>idx sel'. selectFree_spec sel devs = (Some idx, sel')"
proof -
  from assms obtain k where k: "k < length devs" "isFree (devs ! k)"
    by (auto simp: in_set_conv_nth)
  from rotation_covers[OF k(1), of "nat (last_used sel + 1)"] obtain j where
    j: "j < length devs" "(nat (last_used sel + 1) + j) mod length devs = k" by blast
  then have "k \<in> set (map (\<lambda>j. (nat (last_used sel + 1) + j) mod length devs) [0..<length devs])"
    by force
  with k(2) have "find (\<lambda>idx. isFree (devs ! idx))
          (map (\<lambda>j. (nat (last_used sel + 1) + j) mod length devs) [0..<length devs]) \<noteq> None"
    by (auto simp: find_None_iff simp del: set_map map_map)
  then show ?thesis by (auto simp: selectFree_spec_def Let_def)
qed

lemma inv_getFreeDevice:
  assumes "model_inv pending st"
  shows "\<exists>fd sel. getFreeDevice (device_selector st) (devices st) = Inr (fd, sel)
           \<and> model_inv pending (st\<lparr>device_selector := sel\<rparr>)
           \<and> (\<forall>idx. fd = Some idx \<longrightarrow> idx < length (devices st) \<and> isFree (devices st ! idx))
           \<and> (fd = None \<longrightarrow> (\<forall>d\<in>set (devices st). \<not> isFree d))"
proof -
  have ok: "selector_ok (device_selector st) (devices st)"
    using assms by (simp add: model_inv_def devices_ok_def)
  obtain fd sel where s: "selectFree_spec (device_selector st) (devices st) = (fd, sel)"
    by (cases "selectFree_spec (device_selector st) (devices st)") auto
  note c = selectFree_spec_cases[OF s]
  have "selector_ok sel (devices st)"
    using ok c by (cases fd) (auto simp: selector_ok_def)
  then have "model_inv pending (st\<lparr>device_selector := sel\<rparr>)"
    using assms
    by (simp add: model_inv_def vectors_ok_def devices_ok_def calendar_ok_def capacity_ok_def
        static_ok_def store_ok_def conserved_def held_def)
  moreover have "fd = None \<longrightarrow> (\<forall>d\<in>set (devices st). \<not> isFree d)"
    using selectFree_spec_finds[of "devices st" "device_selector st"] s by auto
  ultimately show ?thesis
    using getFreeDevice_spec[OF ok] s c by auto
qed




lemma inv_start_on_device:
  assumes "model_inv (Some req) st" and "idx < length (devices st)" and "isFree (devices st ! idx)"
  shows "\<exists>st'. start_on_device vs idx req st = Inr st' \<and> model_inv None st'"
proof -
  from assms(1) have so: "store_ok (Some req) st" by (simp add: model_inv_def)
  then obtain r where r: "store st req = Some r" "0 \<le> source_id r"
      "source_id r < int (length (sources st))"
    by (auto simp: store_ok_def held_def opt_list_def)
  let ?d = "devices st ! idx"
  let ?st' = "st\<lparr>generator := Suc (generator st),
                 devices := (devices st)[idx := ?d\<lparr>current_request := Some req\<rparr>],
                 store := (store st)(req \<mapsto> r\<lparr>start_service_time := current_time st\<rparr>),
                 calendar := calendar_push
                    (Event_init (current_time st + exponential vs (generator st) (dist_lambda ?d))
                       DEPARTURE (device_id ?d) (Some req))
                    (calendar st)\<rparr>"
  have eq: "start_on_device vs idx req st = Inr ?st'"
    using assms(2) r(1)
    by (simp add: start_on_device_def vec_at_def getServiceTime_def startService_def)
  have m: "mset (in_service (devices ?st')) = add_mset req (mset (in_service (devices st)))"
    using in_service_update[OF assms(2), of "?d\<lparr>current_request := Some req\<rparr>"] assms(3)
    by (simp add: isFree_def opt_list_def)
  have hm: "mset (held None ?st') = mset (held (Some req) st)"
    using m by (simp add: held_def opt_list_def)
  have "distinct (held None ?st')"
    using so mset_eq_imp_distinct_iff[OF hm] by (simp add: store_ok_def)
  moreover have "set (held None ?st') = set (held (Some req) st)" using hm by (rule mset_eq_setD)
  ultimately have "store_ok None ?st'"
    using so r unfolding store_ok_def by auto
  moreover have "conserved None ?st'"
    using assms(1) mset_eq_length[OF hm] by (simp add: model_inv_def conserved_def)
  moreover have "devices_ok ?st'"
    using assms(1,2) by (auto simp: model_inv_def devices_ok_def selector_ok_def nth_list_update)
  moreover have "calendar_ok ?st'"
    using assms(1,2)
    by (auto simp: model_inv_def calendar_ok_def devices_ok_def calendar_push_def event_ok_def Event_init_def)
  moreover have "vectors_ok ?st'" "capacity_ok ?st'" "static_ok ?st'"
    using assms(1) by (simp_all add: model_inv_def vectors_ok_def capacity_ok_def static_ok_def)
  ultimately show ?thesis using eq by (simp add: model_inv_def)
qed

lemma reject_scan_total:
  "\<forall>p\<in>set buf. h p \<noteq> None \<Longrightarrow> \<exists>res. reject_scan h buf w ws temp = Inr res"
  by (induction buf arbitrary: w ws temp) auto

lemma priority_scan_total:
  "\<forall>p\<in>set buf. h p \<noteq> None \<Longrightarrow> \<exists>res. priority_scan h buf b bs temp = Inr res"
  by (induction buf arbitrary: b bs temp) auto

lemma findRequestToReject_Some:
  assumes "queue b \<noteq> []" and "\<forall>p\<in>set (queue b). \<exists>r. h p = Some r \<and> 0 \<le> source_id r"
  shows "\<exists>x b'. findRequestToReject h b = Inr (Some x, b') \<and> x \<in> set (queue b)
            \<and> (\<forall>q\<in>set (queue b). src_of h q \<le> src_of h x)"
proof -
  from assms obtain req rest where q: "queue b = req # rest" by (cases "queue b") auto
  with assms obtain r where r: "h req = Some r" "0 \<le> source_id r" by auto
  have live: "\<forall>p\<in>set (req # rest). h p \<noteq> None" using assms(2) q by auto
  from reject_scan_max[OF live, of "[]"] obtain x temp' where
    x: "reject_scan h rest (Some req) (src_of h req) [] = Inr (Some x, temp')"
       "x \<in> set (req # rest)" "\<forall>q\<in>set (req # rest). src_of h q \<le> src_of h x"
    by blast
  have "reject_scan h (queue b) None (-1) [] = Inr (Some x, temp')"
    using q r x(1) by (simp add: src_of_def)
  then show ?thesis
    using q x(2,3) by (simp add: findRequestToReject_def)
qed

lemma isFull_iff:
  "capacity_ok st \<Longrightarrow> isFull (buffer st) \<longleftrightarrow> int (length (queue (buffer st))) = max_size (buffer st)"
  by (auto simp: capacity_ok_def isFull_def size_t_of_int_def)

lemma inv_place_in_buffer:
  assumes "model_inv (Some req) st"
  shows "\<exists>st'. place_in_buffer req st = Inr st' \<and> model_inv None st'"
proof (cases "isFull (buffer st)")
  case False
  let ?st' = "st\<lparr>buffer := addRequest req (buffer st)\<rparr>"
  have eq: "place_in_buffer req st = Inr ?st'" using False by (simp add: place_in_buffer_def)
  have cap: "capacity_ok st" using assms by (simp add: model_inv_def)
  have hm: "mset (held None ?st') = mset (held (Some req) st)"
    by (simp add: held_def opt_list_def addRequest_def)
  have so: "store_ok (Some req) st" using assms by (simp add: model_inv_def)
  have "distinct (held None ?st')"
    using so mset_eq_imp_distinct_iff[OF hm] by (simp add: store_ok_def)
  moreover have "set (held None ?st') = set (held (Some req) st)" using hm by (rule mset_eq_setD)
  ultimately have "store_ok None ?st'"
    using so unfolding store_ok_def by auto
  moreover have "conserved None ?st'"
    using assms mset_eq_length[OF hm] by (simp add: model_inv_def conserved_def)
  moreover have "capacity_ok ?st'"
    using cap False isFull_iff[OF cap] by (auto simp: capacity_ok_def addRequest_def)
  moreover have "vectors_ok ?st'" "devices_ok ?st'" "calendar_ok ?st'" "static_ok ?st'"
    using assms
    by (simp_all add: model_inv_def vectors_ok_def devices_ok_def calendar_ok_def static_ok_def
          addRequest_def)
  ultimately show ?thesis using eq by (simp add: model_inv_def)
next
  case True
  have cap: "capacity_ok st" using assms by (simp add: model_inv_def)
  have so: "store_ok (Some req) st" using assms by (simp add: model_inv_def)
  have len: "int (length (queue (buffer st))) = max_size (buffer st)"
    using True isFull_iff[OF cap] by simp
  then have ne: "queue (buffer st) \<noteq> []" using cap by (auto simp: capacity_ok_def)
  have live: "\<forall>p\<in>set (queue (buffer st)). \<exists>r. store st p = Some r \<and> 0 \<le> source_id r"
    using so by (auto simp: store_ok_def held_def)
  from findRequestToReject_Some[OF ne live] obtain x b where
    x: "findRequestToReject (store st) (buffer st) = Inr (Some x, b)" "x \<in> set (queue (buffer st))"
    by blast
  from findRequestToReject_mset[OF x(1)]
  have bm: "mset (queue (buffer st)) = add_mset x (mset (queue b))" and ms: "max_size b = max_size (buffer st)"
    by (simp_all add: opt_list_def)
  have xh: "x \<in> set (held (Some req) st)" using x(2) by (simp add: held_def)
  with so obtain rx where rx: "store st x = Some rx" "0 \<le> source_id rx"
      "source_id rx < int (length (sources st))"
    by (auto simp: store_ok_def)
  have dq: "distinct (queue (buffer st))" using so by (simp add: store_ok_def held_def)
  have "distinct (x # queue b)"
    using dq bm mset_eq_imp_distinct_iff[of "queue (buffer st)" "x # queue b"] by simp
  then have xb: "x \<notin> set (queue b)" by simp
  have vec: "vectors_ok st" using assms by (simp add: model_inv_def)
  let ?st' = "delete_Request x
                (st\<lparr>source_rejections :=
                       (source_rejections st)[nat (source_id rx) := source_rejections st ! nat (source_id rx) + 1],
                    requests_rejected := requests_rejected st + 1,
                    buffer := addRequest req (removeRequest x b)\<rparr>)"
  have eq: "place_in_buffer req st = Inr ?st'"
    using True x(1) rx vec
    by (simp add: place_in_buffer_def vec_at_def vectors_ok_def)
  have qb: "queue (buffer ?st') = queue b @ [req]"
    using xb by (simp add: delete_Request_def addRequest_def removeRequest_absent)
  have dd: "devices ?st' = devices st" by (simp add: delete_Request_def)
  have hm: "add_mset x (mset (held None ?st')) = mset (held (Some req) st)"
    using bm by (simp add: held_def qb dd opt_list_def)
  have "distinct (x # held None ?st')"
    using so mset_eq_imp_distinct_iff[of "x # held None ?st'" "held (Some req) st"] hm
    by (simp add: store_ok_def)
  then have d: "distinct (held None ?st')" "x \<notin> set (held None ?st')" by simp_all
  have sub: "set (held None ?st') \<subseteq> set (held (Some req) st)"
    using mset_eq_setD[of "x # held None ?st'" "held (Some req) st"] hm by auto
  have "store_ok None ?st'"
    unfolding store_ok_def using d sub so
    by (auto simp: store_ok_def delete_Request_def)
  moreover have "conserved None ?st'"
  proof -
    have "length (held (Some req) st) = Suc (length (held None ?st'))"
      using mset_eq_length[of "x # held None ?st'" "held (Some req) st"] hm by simp
    then show ?thesis using assms by (simp add: model_inv_def conserved_def delete_Request_def)
  qed
  moreover have "capacity_ok ?st'"
  proof -
    have "length (queue (buffer st)) = Suc (length (queue b))"
      using mset_eq_length[of "queue (buffer st)" "x # queue b"] bm by simp
    then show ?thesis using cap ms
      by (simp add: capacity_ok_def qb) (simp add: delete_Request_def addRequest_def max_size_removeRequest)
  qed
  moreover have "vectors_ok ?st'" "devices_ok ?st'" "calendar_ok ?st'" "static_ok ?st'"
    using assms ms
    by (simp_all add: model_inv_def vectors_ok_def devices_ok_def calendar_ok_def static_ok_def
          delete_Request_def addRequest_def max_size_removeRequest)
  ultimately show ?thesis using eq by (simp add: model_inv_def)
qed




lemma inv_processArrival:
  assumes "model_inv None st" and "0 \<le> sid" and "sid < int (length (sources st))"
  shows "\<exists>st'. processArrival vs sid st = Inr st' \<and> model_inv None st'"
proof -
  have vec: "vectors_ok st" using assms(1) by (simp add: model_inv_def)
  define n where "n = source_requests st ! nat sid"
  have v1: "vec_at (source_requests st) sid = Inr n"
    using assms(2,3) vec by (simp add: vec_at_def vectors_ok_def n_def)
  define st0 where "st0 = st\<lparr>requests_generated := requests_generated st + 1,
                  source_requests := (source_requests st)[nat sid := n + 1]\<rparr>"
  define st1 where "st1 = snd (new_Request sid (n + 1) (current_time st) st0)"
  have nr: "new_Request sid (n + 1) (current_time st) st0 = (next_ptr st, st1)"
    by (simp add: st1_def new_Request_def st0_def)
  have i1: "model_inv (Some (next_ptr st)) st1"
    unfolding st1_def st0_def using inv_new_Request[OF assms] by simp
  have src1: "sources st1 = sources st" "devices st1 = devices st"
    by (simp_all add: st1_def st0_def new_Request_def)
  have v2: "vec_at (sources st1) sid = Inr (sources st ! nat sid)"
    using assms(2,3) by (simp add: vec_at_def src1)
  define interval where "interval = fst (getNextInterval vs (sources st ! nat sid) (generator st1))"
  define g where "g = snd (getNextInterval vs (sources st ! nat sid) (generator st1))"
  define st2 where "st2 = st1\<lparr>generator := g,
       calendar := calendar_push (Event_init (current_time st1 + interval) ARRIVAL sid None) (calendar st1)\<rparr>"
  have "event_ok (length (sources st1)) (length (devices st1))
          (Event_init (current_time st1 + interval) ARRIVAL sid None)"
    using assms(2,3) by (simp add: event_ok_def Event_init_def src1)
  from inv_schedule[OF i1 this] have i2: "model_inv (Some (next_ptr st)) st2" by (simp add: st2_def)
  from inv_getFreeDevice[OF i2] obtain fd sel where
    fd: "getFreeDevice (device_selector st2) (devices st2) = Inr (fd, sel)"
        "model_inv (Some (next_ptr st)) (st2\<lparr>device_selector := sel\<rparr>)"
        "\<forall>idx. fd = Some idx \<longrightarrow> idx < length (devices st2) \<and> isFree (devices st2 ! idx)"
    by blast
  have v2': "vec_at (sources st) sid = Inr (sources st ! nat sid)"
    using assms(2,3) by (simp add: vec_at_def)
  have fd': "getFreeDevice (device_selector st) (devices st) = Inr (fd, sel)"
    using fd(1) by (simp add: st2_def st1_def st0_def new_Request_def)
  have pa: "processArrival vs sid st =
     (case fd of Some idx \<Rightarrow> start_on_device vs idx (next_ptr st) (st2\<lparr>device_selector := sel\<rparr>)
               | None \<Rightarrow> place_in_buffer (next_ptr st) (st2\<lparr>device_selector := sel\<rparr>))"
    using v1 v2' fd'
    by (cases fd) (simp_all add: processArrival_def Let_def split_beta new_Request_def
          st2_def st1_def st0_def interval_def g_def)
  show ?thesis
  proof (cases fd)
    case None
    then show ?thesis using pa inv_place_in_buffer[OF fd(2)] by simp
  next
    case (Some idx)
    then have "idx < length (devices (st2\<lparr>device_selector := sel\<rparr>))"
      "isFree (devices (st2\<lparr>device_selector := sel\<rparr>) ! idx)" using fd(3) by simp_all
    from inv_start_on_device[OF fd(2) this] show ?thesis using pa Some by simp
  qed
qed




lemma inv_finishService:
  assumes "model_inv None st" and "0 \<le> did" and "did < int (length (devices st))"
  shows "model_inv (current_request (devices st ! nat did))
           (st\<lparr>devices := (devices st)[nat did := (devices st ! nat did)\<lparr>current_request := None\<rparr>]\<rparr>)"
proof -
  let ?d = "devices st ! nat did"
  let ?st' = "st\<lparr>devices := (devices st)[nat did := ?d\<lparr>current_request := None\<rparr>]\<rparr>"
  have idx: "nat did < length (devices st)" using assms(2,3) by simp
  have m: "mset (in_service (devices ?st')) + mset (opt_list (current_request ?d))
             = mset (in_service (devices st))"
    using in_service_update[OF idx, of "?d\<lparr>current_request := None\<rparr>"]
    by (simp add: opt_list_def)
  have hm: "mset (held (current_request ?d) ?st') = mset (held None st)"
    using m by (simp add: held_def opt_list_def ac_simps)
  have so: "store_ok None st" using assms(1) by (simp add: model_inv_def)
  have "distinct (held (current_request ?d) ?st')"
    using so mset_eq_imp_distinct_iff[OF hm] by (simp add: store_ok_def)
  moreover have "set (held (current_request ?d) ?st') = set (held None st)"
    using hm by (rule mset_eq_setD)
  ultimately have "store_ok (current_request ?d) ?st'"
    using so unfolding store_ok_def by auto
  moreover have "conserved (current_request ?d) ?st'"
    using assms(1) mset_eq_length[OF hm] by (simp add: model_inv_def conserved_def)
  moreover have "devices_ok ?st'"
    using assms(1) idx by (auto simp: model_inv_def devices_ok_def selector_ok_def nth_list_update)
  moreover have "vectors_ok ?st'" "capacity_ok ?st'" "calendar_ok ?st'" "static_ok ?st'"
    using assms(1)
    by (simp_all add: model_inv_def vectors_ok_def capacity_ok_def calendar_ok_def static_ok_def)
  ultimately show ?thesis by (simp add: model_inv_def)
qed

lemma inv_record_finished:
  assumes "model_inv f st" and "0 \<le> did" and "did < int (length (devices st))"
  shows "\<exists>st'. record_finished did f st = Inr st' \<and> model_inv None st' \<and> devices st' = devices st"
proof (cases f)
  case None
  then show ?thesis using assms(1) by (simp add: record_finished_def)
next
  case (Some p)
  have so: "store_ok (Some p) st" and vec: "vectors_ok st" using assms(1) Some by (simp_all add: model_inv_def)
  then obtain r0 where r0: "store st p = Some r0" "0 \<le> source_id r0"
      "source_id r0 < int (length (sources st))"
    by (auto simp: store_ok_def held_def opt_list_def)
  define r where "r = r0\<lparr>finish_service_time := current_time st\<rparr>"
  have sid: "source_id r = source_id r0" by (simp add: r_def)
  let ?st' = "delete_Request p
      (st\<lparr>requests_served := requests_served st + 1,
          source_total_time :=
            (source_total_time st)[nat (source_id r) := source_total_time st ! nat (source_id r) + total_time r],
          source_waiting_time :=
            (source_waiting_time st)[nat (source_id r) := source_waiting_time st ! nat (source_id r) + waiting_time r],
          device_busy_time :=
            (device_busy_time st)[nat did :=
               device_busy_time st ! nat did + (finish_service_time r - start_service_time r)]\<rparr>)"
  have eq: "record_finished did f st = Inr ?st'"
    using Some r0 vec assms(2,3) sid
    by (simp add: record_finished_def vec_at_def vectors_ok_def Let_def r_def[symmetric])
  have h: "held (Some p) st = p # held None st" "held None ?st' = held None st"
    by (simp_all add: held_def opt_list_def delete_Request_def)
  have f: "store ?st' = (store st)(p := None)" "next_ptr ?st' = next_ptr st"
    "sources ?st' = sources st" "requests_generated ?st' = requests_generated st"
    "requests_served ?st' = requests_served st + 1" "requests_rejected ?st' = requests_rejected st"
    by (simp_all add: delete_Request_def)
  have "store_ok None ?st'"
    using so unfolding store_ok_def h f by auto
  moreover have "conserved None ?st'"
    using assms(1)[unfolded Some] unfolding model_inv_def conserved_def h f by simp
  moreover have "vectors_ok ?st'" "devices_ok ?st'" "calendar_ok ?st'" "capacity_ok ?st'"
      "static_ok ?st'"
    using assms(1)
    by (simp_all add: model_inv_def vectors_ok_def devices_ok_def calendar_ok_def capacity_ok_def
          static_ok_def delete_Request_def)
  moreover have "devices ?st' = devices st" by (simp add: delete_Request_def)
  ultimately show ?thesis using eq by (simp add: model_inv_def)
qed

lemma select_by_priority_total:
  "\<forall>p\<in>set (queue b). h p \<noteq> None \<Longrightarrow> \<exists>res. select_by_priority h b css = Inr res"
  using priority_scan_total[of "queue b" h None INT_MAX "[]"]
  by (auto simp: select_by_priority_def)

lemma getNextRequest_total:
  assumes "\<forall>p\<in>set (queue b). h p \<noteq> None"
  shows "\<exists>r b' css'. getNextRequest h b css = Inr (r, b', css')"
proof (cases "queue b \<noteq> [] \<and> css \<noteq> -1")
  case False
  then show ?thesis using select_by_priority_total[OF assms, of css]
    by (auto simp: getNextRequest_def)
next
  case True
  show ?thesis
  proof (cases "find (\<lambda>p. src_of h p = css) (queue b)")
    case None
    have "\<forall>p\<in>set (queue (b\<lparr>queue := queue b\<rparr>)). h p \<noteq> None" using assms by simp
    from select_by_priority_total[OF this, of "-1"] show ?thesis
      using True None by (auto simp: getNextRequest_def packet_scan_find[OF assms] refill_append)
  next
    case (Some f)
    then show ?thesis using True
      by (simp add: getNextRequest_def packet_scan_find[OF assms])
  qed
qed

lemma inv_serve_next:
  assumes "model_inv None st" and "\<exists>d\<in>set (devices st). isFree d"
  shows "\<exists>st'. serve_next vs st = Inr st' \<and> model_inv None st'"
proof (cases "isEmpty (buffer st)")
  case True
  then show ?thesis using assms(1) by (simp add: serve_next_def)
next
  case False
  have so: "store_ok None st" using assms(1) by (simp add: model_inv_def)
  then have live: "\<forall>p\<in>set (queue (buffer st)). store st p \<noteq> None"
    by (auto simp: store_ok_def held_def)
  from getNextRequest_total[OF live] obtain nr b css where
    g: "getNextRequest (store st) (buffer st) (current_serving_source st) = Inr (nr, b, css)"
    by blast
  from getNextRequest_mset[OF g]
  have bm: "mset (queue b) + mset (opt_list nr) = mset (queue (buffer st))"
    and ms: "max_size b = max_size (buffer st)" by simp_all
  let ?st0 = "st\<lparr>buffer := b, current_serving_source := css\<rparr>"
  have hm: "mset (held nr ?st0) = mset (held None st)"
    using bm by (simp add: held_def opt_list_def ac_simps)
  have "distinct (held nr ?st0)"
    using so mset_eq_imp_distinct_iff[OF hm] by (simp add: store_ok_def)
  moreover have "set (held nr ?st0) = set (held None st)" using hm by (rule mset_eq_setD)
  ultimately have "store_ok nr ?st0"
    using so unfolding store_ok_def by auto
  moreover have "conserved nr ?st0"
    using assms(1) mset_eq_length[OF hm] by (simp add: model_inv_def conserved_def)
  moreover have "capacity_ok ?st0"
  proof -
    have "length (queue b) \<le> length (queue (buffer st))"
      using mset_eq_length[of "queue b @ opt_list nr" "queue (buffer st)"] bm by simp
    then show ?thesis using assms(1) ms by (simp add: model_inv_def capacity_ok_def)
  qed
  moreover have "vectors_ok ?st0" "devices_ok ?st0" "calendar_ok ?st0" "static_ok ?st0"
    using assms(1) ms
    by (simp_all add: model_inv_def vectors_ok_def devices_ok_def calendar_ok_def static_ok_def)
  ultimately have i0: "model_inv nr ?st0" by (simp add: model_inv_def)
  show ?thesis
  proof (cases nr)
    case None
    then show ?thesis using False g i0 by (simp add: serve_next_def)
  next
    case (Some p)
    have "distinct (held (Some p) ?st0)" using i0 Some by (simp add: model_inv_def store_ok_def)
    then have "p \<notin> set (queue b)" by (simp add: held_def opt_list_def)
    then have rm: "removeRequest p b = b" by (rule removeRequest_absent)
    from inv_getFreeDevice[OF i0] obtain fd sel where
      fd: "getFreeDevice (device_selector st) (devices st) = Inr (fd, sel)"
          "model_inv nr (?st0\<lparr>device_selector := sel\<rparr>)"
          "\<forall>idx. fd = Some idx \<longrightarrow> idx < length (devices st) \<and> isFree (devices st ! idx)"
          "fd = None \<longrightarrow> (\<forall>d\<in>set (devices st). \<not> isFree d)"
      by auto
    from fd(4) assms(2) obtain idx where idx: "fd = Some idx" by (cases fd) auto
    then have "idx < length (devices (?st0\<lparr>device_selector := sel\<rparr>))"
      "isFree (devices (?st0\<lparr>device_selector := sel\<rparr>) ! idx)" using fd(3) by simp_all
    from inv_start_on_device[OF fd(2)[unfolded Some] this, of vs] show ?thesis
      using False g Some rm fd(1) idx by (simp add: serve_next_def)
  qed
qed

lemma inv_processDeparture:
  assumes "model_inv None st" and "0 \<le> did" and "did < int (length (devices st))"
  shows "\<exists>st'. processDeparture vs did st = Inr st' \<and> model_inv None st'"
proof -
  let ?d = "devices st ! nat did"
  let ?st1 = "st\<lparr>devices := (devices st)[nat did := ?d\<lparr>current_request := None\<rparr>]\<rparr>"
  have idx: "nat did < length (devices st)" using assms(2,3) by simp
  have i1: "model_inv (current_request ?d) ?st1" by (rule inv_finishService[OF assms])
  have "did < int (length (devices ?st1))" using assms(3) by simp
  from inv_record_finished[OF i1 assms(2) this] obtain st2 where
    st2: "record_finished did (current_request ?d) ?st1 = Inr st2" "model_inv None st2"
         "devices st2 = devices ?st1" by blast
  have "isFree (devices st2 ! nat did)" using st2(3) idx by (simp add: isFree_def)
  moreover have "nat did < length (devices st2)" using st2(3) idx by simp
  ultimately have "\<exists>d\<in>set (devices st2). isFree d" by (metis nth_mem)
  from inv_serve_next[OF st2(2) this, of vs] show ?thesis
    using st2(1) assms(2,3)
    by (simp add: processDeparture_def vec_at_def finishService_def)
qed




lemma earliest_nonempty:
  assumes "cal \<noteq> []"
  shows "earliest cal \<noteq> []"
proof -
  have fin: "finite (time ` set cal)" "time ` set cal \<noteq> {}" using assms by auto
  then have "Min (time ` set cal) \<in> time ` set cal" by (rule Min_in)
  then obtain e where e: "e \<in> set cal" "time e = Min (time ` set cal)" by auto
  have "\<forall>e'\<in>set cal. time e \<le> time e'" using e(2) fin(1) by simp
  then have "e \<in> set (earliest cal)" using e(1) by (simp add: earliest_def)
  then show ?thesis by auto
qed

lemma calendar_top_min:
  assumes "cal \<noteq> []"
  shows "calendar_top c cal \<in> set cal \<and> (\<forall>e'\<in>set cal. time (calendar_top c cal) \<le> time e')"
proof -
  have "c mod length (earliest cal) < length (earliest cal)"
    using earliest_nonempty[OF assms] by simp
  then have "calendar_top c cal \<in> set (earliest cal)"
    unfolding calendar_top_def by (rule nth_mem)
  then show ?thesis by (simp add: earliest_def)
qed

lemma inv_loop_body:
  assumes "model_inv None st" and "calendar st \<noteq> []"
  shows "\<exists>st'. loop_body vs c st = Inr st' \<and> model_inv None st'"
proof -
  let ?e = "calendar_top c (calendar st)"
  let ?st1 = "st\<lparr>calendar := calendar_pop c (calendar st), current_time := time ?e\<rparr>"
  have mem: "?e \<in> set (calendar st)" using calendar_top_min[OF assms(2)] by simp
  then have ok: "event_ok (length (sources st)) (length (devices st)) ?e"
    using assms(1) by (simp add: model_inv_def calendar_ok_def)
  have "calendar_ok ?st1"
    using assms(1) by (auto simp: model_inv_def calendar_ok_def calendar_pop_def dest: notin_set_remove1)
  then have i1: "model_inv None ?st1"
    using assms(1)
    by (simp add: model_inv_def vectors_ok_def devices_ok_def capacity_ok_def static_ok_def
          store_ok_def conserved_def held_def)
  show ?thesis
  proof (cases "type ?e")
    case ARRIVAL
    then have "0 \<le> entity_id ?e" "entity_id ?e < int (length (sources ?st1))"
      using ok by (simp_all add: event_ok_def)
    from inv_processArrival[OF i1 this, of vs] show ?thesis
      using ARRIVAL by (simp add: loop_body_def Let_def)
  next
    case DEPARTURE
    then have "0 \<le> entity_id ?e" "entity_id ?e < int (length (devices ?st1))"
      using ok by (simp_all add: event_ok_def)
    from inv_processDeparture[OF i1 this, of vs] show ?thesis
      using DEPARTURE by (simp add: loop_body_def Let_def)
  qed
qed

lemma upt3: "[0..<3] = [0, 1, 2]" and upt2: "[0..<2] = [0, 1]"
  by (simp_all add: upt_rec)

lemma SimulationModel_init_eq:
  "SimulationModel_init vs =
     \<lparr>calendar = [Event_init (uniform_real vs 0 (3/2) (5/2)) ARRIVAL 0 None,
                  Event_init (uniform_real vs 1 2 3) ARRIVAL 1 None,
                  Event_init (uniform_real vs 2 (5/2) (7/2)) ARRIVAL 2 None],
      sources = [Source_init 0 (3/2) (5/2), Source_init 1 2 3, Source_init 2 (5/2) (7/2)],
      devices = [Device_init 0 2, Device_init 1 3],
      buffer = Buffer_init 3,
      device_selector = DeviceSelector_init 2,
      generator = 3,
      current_time = 0,
      current_serving_source = -1,
      requests_generated = 0,
      requests_served = 0,
      requests_rejected = 0,
      source_requests = [0, 0, 0],
      source_rejections = [0, 0, 0],
      source_total_time = [0, 0, 0],
      source_waiting_time = [0, 0, 0],
      device_busy_time = [0, 0],
      store = Map.empty,
      next_ptr = 0\<rparr>"
  by (simp add: SimulationModel_init_def upt3 upt2 schedule_first_def getNextInterval_def
        calendar_push_def Source_init_def numeral_3_eq_3 numeral_2_eq_2)

lemma inv_init: "model_inv None (SimulationModel_init vs)"
  unfolding SimulationModel_init_eq
  by (simp add: model_inv_def vectors_ok_def devices_ok_def calendar_ok_def capacity_ok_def static_ok_def
        store_ok_def conserved_def held_def in_service_def opt_list_def selector_ok_def
        DeviceSelector_init_def Device_init_def Source_init_def Buffer_init_def Event_init_def
        event_ok_def nth_Cons' less_Suc_eq numeral_2_eq_2)

lemma reachable_inv: "reachable vs max_time max_requests st \<Longrightarrow> model_inv None st"
proof (induction rule: reachable.induct)
  case reachable_init
  show ?case by (rule inv_init)
next
  case (reachable_step st c st')
  then have "calendar st \<noteq> []" by (simp add: loop_guard_def)
  from inv_loop_body[OF reachable_step.IH this, of vs c] reachable_step.hyps(3)
  show ?case by simp
qed

section \<open>Claims about the engine\<close>

lemma run_loop_reachable:
  assumes "run_loop vs tb max_time max_requests k st = Some y"
  shows "\<forall>st'. y = Inr st' \<longrightarrow> reachable vs max_time max_requests st
      \<longrightarrow> reachable vs max_time max_requests st' \<and> \<not> loop_guard max_time max_requests st'"
proof (rule run_loop.raw_induct[where P = "\<lambda>vs tb mt mr k st y.
          \<forall>st'. y = Inr st' \<longrightarrow> reachable vs mt mr st
            \<longrightarrow> reachable vs mt mr st' \<and> \<not> loop_guard mt mr st'", OF _ assms])
  fix rl vs tb mt mr k st y
  assume ih: "\<And>vs tb mt mr k st y. rl vs tb mt mr k st = Some y \<Longrightarrow>
          \<forall>st'. y = Inr st' \<longrightarrow> reachable vs mt mr st
            \<longrightarrow> reachable vs mt mr st' \<and> \<not> loop_guard mt mr st'"
    and eq: "(if loop_guard mt mr st
              then case loop_body vs (tb k) st of Inl e \<Rightarrow> Some (Inl e)
                   | Inr st' \<Rightarrow> rl vs tb mt mr (Suc k) st'
              else Some (Inr st)) = Some y"
  show "\<forall>st'. y = Inr st' \<longrightarrow> reachable vs mt mr st
            \<longrightarrow> reachable vs mt mr st' \<and> \<not> loop_guard mt mr st'"
  proof (intro allI impI)
    fix st'
    assume y: "y = Inr st'" and r: "reachable vs mt mr st"
    show "reachable vs mt mr st' \<and> \<not> loop_guard mt mr st'"
    proof (cases "loop_guard mt mr st")
      case False
      with eq y have "st' = st" by simp
      with r False show ?thesis by simp
    next
      case True
      with eq y obtain st1 where
        st1: "loop_body vs (tb k) st = Inr st1" "rl vs tb mt mr (Suc k) st1 = Some (Inr st')"
        by (auto split: sum.splits)
      from reachable_step[OF r True st1(1)] have "reachable vs mt mr st1" .
      with ih[OF st1(2)] show ?thesis by simp
    qed
  qed
qed

lemma length_in_service:
  "length (in_service devs) = length (filter (\<lambda>d. \<not> isFree d) devs)"
  by (induction devs) (auto simp: in_service_def opt_list_def isFree_def split: option.splits)

text \<open>
  C3. In every state that the engine reaches from the state the constructor builds, the
  buffer holds at most as many requests as its capacity, which is 3; and one more iteration of
  the loop from such a state, the arrival into a full buffer included, keeps it so.
\<close>

theorem buffer_within_capacity:
  assumes "reachable vs max_time max_requests st"
  shows "getSize (buffer st) \<le> getMaxSize (buffer st) \<and> getMaxSize (buffer st) = 3
    \<and> (\<forall>c st'. loop_guard max_time max_requests st \<and> loop_body vs c st = Inr st'
           \<longrightarrow> getSize (buffer st') \<le> getMaxSize (buffer st'))"
proof -
  have a: "getSize (buffer s) \<le> getMaxSize (buffer s) \<and> getMaxSize (buffer s) = 3"
    if "reachable vs max_time max_requests s" for s
    using reachable_inv[OF that]
    by (simp add: model_inv_def capacity_ok_def static_ok_def getSize_def getMaxSize_def)
  show ?thesis using a[OF assms] a[OF reachable_step[OF assms]] by blast
qed

text \<open>
  C4. In every state that the engine reaches, and in the state in which \<open>run\<close> returns,
  the number of generated requests is the number of served ones plus the number of rejected
  ones plus the size of the buffer plus the number of busy devices.
\<close>

theorem requests_conserved:
  assumes "reachable vs max_time max_requests st"
  shows "requests_generated st
           = requests_served st + requests_rejected st + getSize (buffer st)
             + int (length (filter (\<lambda>d. \<not> isFree d) (devices st)))
    \<and> (\<forall>tb st'. run vs tb max_time max_requests st = Some (Inr st') \<longrightarrow>
          requests_generated st'
           = requests_served st' + requests_rejected st' + getSize (buffer st')
             + int (length (filter (\<lambda>d. \<not> isFree d) (devices st'))))"
proof -
  have a: "requests_generated s
           = requests_served s + requests_rejected s + getSize (buffer s)
             + int (length (filter (\<lambda>d. \<not> isFree d) (devices s)))"
    if "reachable vs max_time max_requests s" for s
    using reachable_inv[OF that]
    by (simp add: model_inv_def conserved_def held_def opt_list_def getSize_def length_in_service)
  have "reachable vs max_time max_requests st'"
    if "run vs tb max_time max_requests st = Some (Inr st')" for tb st'
    using run_loop_reachable[OF that[unfolded run_def]] assms by simp
  then show ?thesis using a[OF assms] a by blast
qed

section \<open>The clock\<close>

lemma set_in_service_update:
  "idx < length devs \<Longrightarrow>
   set (in_service (devs[idx := d])) \<subseteq> set (in_service devs) \<union> set (opt_list (current_request d))"
  using in_service_update[of idx devs d, THEN arg_cong[where f = set_mset]]
  by auto

lemma time_start_on_device:
  assumes "start_on_device vs idx req st = Inr st'" and "time_ok st" and "variates_ok vs"
    and "req \<notin> set (in_service (devices st))"
  shows "time_ok st'"
proof -
  from assms(1) obtain r where r: "store st req = Some r" and idx: "idx < length (devices st)"
    and st': "st' = st\<lparr>generator := Suc (generator st),
                 devices := (devices st)[idx := (devices st ! idx)\<lparr>current_request := Some req\<rparr>],
                 store := (store st)(req \<mapsto> r\<lparr>start_service_time := current_time st\<rparr>),
                 calendar := calendar_push
                    (Event_init (current_time st + exponential vs (generator st) (dist_lambda (devices st ! idx)))
                       DEPARTURE (device_id (devices st ! idx)) (Some req))
                    (calendar st)\<rparr>"
    by (auto simp: start_on_device_def vec_at_def getServiceTime_def startService_def
          split: if_splits option.splits)
  have sub: "set (in_service (devices st')) \<subseteq> insert req (set (in_service (devices st)))"
    using set_in_service_update[OF idx, of "(devices st ! idx)\<lparr>current_request := Some req\<rparr>"]
    by (auto simp: st' opt_list_def)
  have nn: "0 \<le> exponential vs (generator st) (dist_lambda (devices st ! idx))"
    using assms(3) by (simp add: variates_ok_def)
  have "\<forall>e\<in>set (calendar st'). current_time st' \<le> time e"
    using assms(2) nn by (auto simp: st' time_ok_def calendar_push_def Event_init_def)
  moreover have "\<forall>p r. store st' p = Some r \<longrightarrow> arrival_time r \<le> current_time st'"
    using assms(2) r by (auto simp: st' time_ok_def)
  moreover have "\<forall>p\<in>set (in_service (devices st')). \<forall>r. store st' p = Some r \<longrightarrow>
            arrival_time r \<le> start_service_time r \<and> start_service_time r \<le> current_time st'"
  proof (intro ballI allI impI)
    fix p r'
    assume p: "p \<in> set (in_service (devices st'))" and s: "store st' p = Some r'"
    show "arrival_time r' \<le> start_service_time r' \<and> start_service_time r' \<le> current_time st'"
    proof (cases "p = req")
      case True
      then show ?thesis using s r assms(2) by (auto simp: st' time_ok_def)
    next
      case False
      with p sub have "p \<in> set (in_service (devices st))" by auto
      then show ?thesis using s False assms(2) by (auto simp: st' time_ok_def)
    qed
  qed
  ultimately show ?thesis by (simp add: time_ok_def)
qed

lemma place_in_buffer_frame:
  assumes "place_in_buffer req st = Inr st'"
  shows "calendar st' = calendar st \<and> devices st' = devices st \<and> current_time st' = current_time st
    \<and> sources st' = sources st
    \<and> (\<forall>p. store st' p = store st p \<or> store st' p = None)
    \<and> source_total_time st' = source_total_time st \<and> source_waiting_time st' = source_waiting_time st
    \<and> requests_served st' = requests_served st"
  using assms
  by (auto simp: place_in_buffer_def delete_Request_def split: if_splits sum.splits option.splits)

lemma time_place_in_buffer:
  assumes "place_in_buffer req st = Inr st'" and "time_ok st"
  shows "time_ok st'"
proof -
  note f = place_in_buffer_frame[OF assms(1)]
  have "store st' p = Some r \<Longrightarrow> store st p = Some r" for p r
    using f by (metis option.distinct(1))
  then show ?thesis using assms(2) f unfolding time_ok_def by metis
qed




lemma in_service_live:
  "store_ok pending st \<Longrightarrow> p \<in> set (in_service (devices st)) \<Longrightarrow> store st p \<noteq> None"
  by (auto simp: store_ok_def held_def)

lemma processArrival_unfold:
  assumes "0 \<le> sid" and "sid < int (length (source_requests st))"
    and "sid < int (length (sources st))"
    and "getFreeDevice (device_selector st) (devices st) = Inr (fd, sel)"
  shows "processArrival vs sid st =
     (case fd of
        Some idx \<Rightarrow> start_on_device vs idx (next_ptr st) ((arrived vs sid st)\<lparr>device_selector := sel\<rparr>)
      | None \<Rightarrow> place_in_buffer (next_ptr st) ((arrived vs sid st)\<lparr>device_selector := sel\<rparr>))"
  using assms
  by (cases fd) (simp_all add: processArrival_def Let_def split_beta new_Request_def
        getNextInterval_def vec_at_def arrived_def)

lemma time_processArrival:
  assumes "processArrival vs sid st = Inr st'" and "model_inv None st" and "time_ok st"
    and "variates_ok vs" and "0 \<le> sid" and "sid < int (length (sources st))"
  shows "time_ok st'"
proof -
  have vec: "vectors_ok st" and so: "store_ok None st" and stat: "static_ok st"
    using assms(2) by (simp_all add: model_inv_def)
  from inv_getFreeDevice[OF assms(2)] obtain fd sel where
    fd: "getFreeDevice (device_selector st) (devices st) = Inr (fd, sel)" by blast
  let ?st2 = "(arrived vs sid st)\<lparr>device_selector := sel\<rparr>"
  have res: "(case fd of Some idx \<Rightarrow> start_on_device vs idx (next_ptr st) ?st2
               | None \<Rightarrow> place_in_buffer (next_ptr st) ?st2) = Inr st'"
    using processArrival_unfold[OF assms(5) _ assms(6) fd, of vs] assms(1,6) vec
    by (simp add: vectors_ok_def)
  have fresh: "store st (next_ptr st) = None" using so by (auto simp: store_ok_def)
  then have nin: "next_ptr st \<notin> set (in_service (devices st))"
    using in_service_live[OF so, of "next_ptr st"] by auto
  have "sources st ! nat sid \<in> set (sources st)" using assms(5,6) by simp
  then have "dist_min (sources st ! nat sid) < dist_max (sources st ! nat sid)"
    "3 / 2 \<le> dist_min (sources st ! nat sid)"
    using stat by (auto simp: static_ok_def)
  moreover from this(1) have "dist_min (sources st ! nat sid) \<le> uniform_real vs (generator st)
                (dist_min (sources st ! nat sid)) (dist_max (sources st ! nat sid))"
    using assms(4) by (simp add: variates_ok_def)
  ultimately have "0 \<le> uniform_real vs (generator st)
                (dist_min (sources st ! nat sid)) (dist_max (sources st ! nat sid))"
    by linarith
  then have t2: "time_ok ?st2"
    using assms(3) nin fresh
    by (auto simp: time_ok_def arrived_def calendar_push_def Event_init_def Request_init_def)
  show ?thesis
  proof (cases fd)
    case None
    with res time_place_in_buffer[OF _ t2] show ?thesis by simp
  next
    case (Some idx)
    have "next_ptr st \<notin> set (in_service (devices ?st2))"
      using nin by (simp add: arrived_def)
    with Some res time_start_on_device[OF _ t2 assms(4)] show ?thesis by simp
  qed
qed

lemma time_record_finished:
  assumes "record_finished did f st = Inr st'" and "time_ok st"
  shows "time_ok st'"
proof -
  have fr: "calendar st' = calendar st \<and> devices st' = devices st \<and> current_time st' = current_time st
    \<and> (\<forall>p. store st' p = store st p \<or> store st' p = None)"
    using assms(1)
    by (auto simp: record_finished_def delete_Request_def Let_def
          split: sum.splits option.splits if_splits)
  have "store st' p = Some r \<Longrightarrow> store st p = Some r" for p r
    using fr by (metis option.distinct(1))
  then show ?thesis using assms(2) fr unfolding time_ok_def by metis
qed

lemma time_serve_next:
  assumes "serve_next vs st = Inr st'" and "time_ok st" and "variates_ok vs"
    and "store_ok None st"
  shows "time_ok st'"
proof (cases "isEmpty (buffer st)")
  case True
  with assms show ?thesis by (simp add: serve_next_def)
next
  case False
  with assms(1) obtain nr b css where
    g: "getNextRequest (store st) (buffer st) (current_serving_source st) = Inr (nr, b, css)"
    by (auto simp: serve_next_def split: sum.splits)
  let ?st0 = "st\<lparr>buffer := b, current_serving_source := css\<rparr>"
  have t0: "time_ok ?st0" using assms(2) by (simp add: time_ok_def)
  show ?thesis
  proof (cases nr)
    case None
    with assms(1) False g t0 show ?thesis by (simp add: serve_next_def)
  next
    case (Some p)
    from getNextRequest_mset[OF g] Some have "p \<in> set (queue (buffer st))"
      by (metis mset_eq_setD opt_list_def option.simps(5) set_append list.set_intros(1) UnCI mset_append)
    then have pn: "p \<notin> set (in_service (devices st))"
      using assms(4) by (auto simp: store_ok_def held_def)
    obtain fd sel where
      fd: "getFreeDevice (device_selector st) (devices st) = Inr (fd, sel)"
      using assms(1) False g Some by (auto simp: serve_next_def Let_def split: sum.splits)
    have res: "(case fd of Some idx \<Rightarrow> start_on_device vs idx p
                     (st\<lparr>buffer := removeRequest p b, current_serving_source := css,
                         device_selector := sel\<rparr>)
                 | None \<Rightarrow> Inr (st\<lparr>buffer := removeRequest p b, current_serving_source := css,
                         device_selector := sel\<rparr>)) = Inr st'"
      using assms(1) False g Some fd by (cases fd) (simp_all add: serve_next_def Let_def)
    let ?st1 = "st\<lparr>buffer := removeRequest p b, current_serving_source := css,
                         device_selector := sel\<rparr>"
    have t1: "time_ok ?st1" using assms(2) by (simp add: time_ok_def)
    show ?thesis
    proof (cases fd)
      case None
      with res t1 show ?thesis by auto
    next
      case (Some idx)
      have "p \<notin> set (in_service (devices ?st1))" using pn by simp
      with Some res time_start_on_device[OF _ t1 assms(3)] show ?thesis by simp
    qed
  qed
qed




lemma processDeparture_unfold:
  assumes "0 \<le> did" and "did < int (length (devices st))"
  shows "processDeparture vs did st =
     (case record_finished did (current_request (devices st ! nat did))
             (st\<lparr>devices := (devices st)[nat did := (devices st ! nat did)\<lparr>current_request := None\<rparr>]\<rparr>) of
        Inl e \<Rightarrow> Inl e
      | Inr st1 \<Rightarrow> serve_next vs st1)"
  using assms by (simp add: processDeparture_def vec_at_def finishService_def)

lemma time_processDeparture:
  assumes "processDeparture vs did st = Inr st'" and "model_inv None st" and "time_ok st"
    and "variates_ok vs" and "0 \<le> did" and "did < int (length (devices st))"
  shows "time_ok st'"
proof -
  let ?d = "devices st ! nat did"
  let ?st1 = "st\<lparr>devices := (devices st)[nat did := ?d\<lparr>current_request := None\<rparr>]\<rparr>"
  have idx: "nat did < length (devices st)" using assms(5,6) by simp
  have i1: "model_inv (current_request ?d) ?st1" by (rule inv_finishService[OF assms(2,5,6)])
  have "did < int (length (devices ?st1))" using assms(6) by simp
  from inv_record_finished[OF i1 assms(5) this] obtain st2 where
    st2: "record_finished did (current_request ?d) ?st1 = Inr st2" "model_inv None st2" by blast
  have sn: "serve_next vs st2 = Inr st'"
    using assms(1) st2(1) processDeparture_unfold[OF assms(5,6), of vs] by simp
  have "set (in_service (devices ?st1)) \<subseteq> set (in_service (devices st))"
    using set_in_service_update[OF idx, of "?d\<lparr>current_request := None\<rparr>"]
    by (simp add: opt_list_def)
  then have "time_ok ?st1" using assms(3) by (auto simp: time_ok_def)
  from time_record_finished[OF st2(1) this] have t2: "time_ok st2" .
  have "store_ok None st2" using st2(2) by (simp add: model_inv_def)
  from time_serve_next[OF sn t2 assms(4) this] show ?thesis .
qed

lemma time_loop_body:
  assumes "loop_body vs c st = Inr st'" and "model_inv None st" and "time_ok st"
    and "variates_ok vs" and "calendar st \<noteq> []"
  shows "time_ok st'"
proof -
  let ?e = "calendar_top c (calendar st)"
  let ?st1 = "st\<lparr>calendar := calendar_pop c (calendar st), current_time := time ?e\<rparr>"
  note top = calendar_top_min[OF assms(5), of c]
  then have ok: "event_ok (length (sources st)) (length (devices st)) ?e"
    using assms(2) by (simp add: model_inv_def calendar_ok_def)
  have le: "current_time st \<le> time ?e" using top assms(3) by (simp add: time_ok_def)
  have "calendar_ok ?st1"
    using assms(2) by (auto simp: model_inv_def calendar_ok_def calendar_pop_def dest: notin_set_remove1)
  then have i1: "model_inv None ?st1"
    using assms(2)
    by (simp add: model_inv_def vectors_ok_def devices_ok_def capacity_ok_def static_ok_def
          store_ok_def conserved_def held_def)
  have "\<forall>e\<in>set (calendar ?st1). current_time ?st1 \<le> time e"
    using top by (auto simp: calendar_pop_def dest: notin_set_remove1)
  then have t1: "time_ok ?st1"
    using assms(3) le unfolding time_ok_def by (simp, force)
  show ?thesis
  proof (cases "type ?e")
    case ARRIVAL
    then have "0 \<le> entity_id ?e" "entity_id ?e < int (length (sources ?st1))"
      using ok by (simp_all add: event_ok_def)
    moreover have "processArrival vs (entity_id ?e) ?st1 = Inr st'"
      using assms(1) ARRIVAL by (simp add: loop_body_def Let_def)
    ultimately show ?thesis using time_processArrival[OF _ i1 t1 assms(4)] by blast
  next
    case DEPARTURE
    then have "0 \<le> entity_id ?e" "entity_id ?e < int (length (devices ?st1))"
      using ok by (simp_all add: event_ok_def)
    moreover have "processDeparture vs (entity_id ?e) ?st1 = Inr st'"
      using assms(1) DEPARTURE by (simp add: loop_body_def Let_def)
    ultimately show ?thesis using time_processDeparture[OF _ i1 t1 assms(4)] by blast
  qed
qed

lemma time_init: "variates_ok vs \<Longrightarrow> time_ok (SimulationModel_init vs)"
proof -
  assume v: "variates_ok vs"
  have u: "a < b \<Longrightarrow> a \<le> uniform_real vs g a b" for g a b
    using v by (simp add: variates_ok_def)
  have "(3/2::real) \<le> uniform_real vs 0 (3/2) (5/2)" "(2::real) \<le> uniform_real vs 1 2 3"
    "(5/2::real) \<le> uniform_real vs 2 (5/2) (7/2)"
    by (rule u, simp)+
  then show ?thesis
    unfolding SimulationModel_init_eq
    by (simp add: time_ok_def Event_init_def in_service_def Device_init_def opt_list_def)
qed

lemma reachable_time:
  "reachable vs max_time max_requests st \<Longrightarrow> variates_ok vs \<Longrightarrow> time_ok st"
proof (induction rule: reachable.induct)
  case reachable_init
  then show ?case by (rule time_init)
next
  case (reachable_step st c st')
  have "calendar st \<noteq> []" using reachable_step.hyps(2) by (simp add: loop_guard_def)
  from time_loop_body[OF reachable_step.hyps(3) reachable_inv[OF reachable_step.hyps(1)]
        reachable_step.IH[OF reachable_step.prems] reachable_step.prems this]
  show ?case .
qed

lemma variates_ok_const: "variates_ok const_variates"
  by (simp add: variates_ok_def const_variates_def)

lemma init_const:
  "SimulationModel_init const_variates =
     \<lparr>calendar = [Event_init (3/2) ARRIVAL 0 None,
                  Event_init 2 ARRIVAL 1 None,
                  Event_init (5/2) ARRIVAL 2 None],
      sources = [Source_init 0 (3/2) (5/2), Source_init 1 2 3, Source_init 2 (5/2) (7/2)],
      devices = [Device_init 0 2, Device_init 1 3],
      buffer = Buffer_init 3,
      device_selector = DeviceSelector_init 2,
      generator = 3,
      current_time = 0,
      current_serving_source = -1,
      requests_generated = 0,
      requests_served = 0,
      requests_rejected = 0,
      source_requests = [0, 0, 0],
      source_rejections = [0, 0, 0],
      source_total_time = [0, 0, 0],
      source_waiting_time = [0, 0, 0],
      device_busy_time = [0, 0],
      store = Map.empty,
      next_ptr = 0\<rparr>"
  by (simp add: SimulationModel_init_eq const_variates_def)

lemma top_init:
  "calendar_top c (calendar (SimulationModel_init const_variates)) = Event_init (3/2) ARRIVAL 0 None"
  by (simp add: init_const calendar_top_def earliest_def Event_init_def)

lemma first_free:
  "getFreeDevice (DeviceSelector_init 2) [Device_init 0 2, Device_init 1 3]
     = Inr (Some 0, \<lparr>last_used = 0, num_devices = 2\<rparr>)"
proof -
  have "selector_ok (DeviceSelector_init 2) [Device_init 0 2, Device_init 1 3]"
    by (simp add: selector_ok_def DeviceSelector_init_def)
  from getFreeDevice_spec[OF this] show ?thesis
    by (simp add: selectFree_spec_def DeviceSelector_init_def Device_init_def isFree_def upt2)
qed

lemma first_step:
  "loop_body const_variates c (SimulationModel_init const_variates) = Inr after_first_arrival"
  unfolding loop_body_def top_init init_const
  by (simp add: calendar_pop_def calendar_top_def earliest_def Event_init_def
        processArrival_def vec_at_def new_Request_def getNextInterval_def Source_init_def
        first_free[unfolded Device_init_def] start_on_device_def getServiceTime_def startService_def
        calendar_push_def const_variates_def after_first_arrival_def Device_init_def
        Request_init_def Let_def)


lemma start_on_device_stats:
  assumes "start_on_device vs idx req st = Inr st'"
  shows "source_total_time st' = source_total_time st
    \<and> source_waiting_time st' = source_waiting_time st
    \<and> requests_served st' = requests_served st"
  using assms
  by (auto simp: start_on_device_def getServiceTime_def startService_def
        split: sum.splits option.splits)

lemma serve_next_stats:
  assumes "serve_next vs st = Inr st'"
  shows "source_total_time st' = source_total_time st
    \<and> source_waiting_time st' = source_waiting_time st
    \<and> requests_served st' = requests_served st"
proof (cases "isEmpty (buffer st)")
  case True
  with assms show ?thesis by (simp add: serve_next_def)
next
  case False
  with assms obtain nr b css where
    g: "getNextRequest (store st) (buffer st) (current_serving_source st) = Inr (nr, b, css)"
    by (auto simp: serve_next_def split: sum.splits)
  show ?thesis
  proof (cases nr)
    case None
    with assms False g show ?thesis by (auto simp: serve_next_def)
  next
    case (Some p)
    obtain fd sel where
      fd: "getFreeDevice (device_selector st) (devices st) = Inr (fd, sel)"
      using assms False g Some by (auto simp: serve_next_def Let_def split: sum.splits)
    let ?st1 = "st\<lparr>buffer := removeRequest p b, current_serving_source := css,
                         device_selector := sel\<rparr>"
    have res: "(case fd of Some idx \<Rightarrow> start_on_device vs idx p ?st1
                 | None \<Rightarrow> Inr ?st1) = Inr st'"
      using assms False g Some fd by (cases fd) (simp_all add: serve_next_def Let_def)
    show ?thesis
    proof (cases fd)
      case None
      with res show ?thesis by auto
    next
      case (Some idx)
      with res have "start_on_device vs idx p ?st1 = Inr st'" by simp
      from start_on_device_stats[OF this] show ?thesis by simp
    qed
  qed
qed

text \<open>
  C7. From every reachable state whose next event is the departure of a request \<open>r\<close> held
  by the device of the event, the iteration of the loop completes the service: it counts
  one more served request, adds the sojourn time of \<open>r\<close> (the time of the departure minus
  the arrival) to \<open>source_total_time\<close> of the source of \<open>r\<close> and its waiting time (the start
  of service minus the arrival) to \<open>source_waiting_time\<close> of that source, and the sojourn
  time added is at least the waiting time added, which is not negative. The variates are
  in the range of their distributions.
\<close>

theorem departure_accounts_sojourn_and_waiting:
  assumes "variates_ok vs" and "reachable vs max_time max_requests st"
    and "loop_guard max_time max_requests st"
    and "type (calendar_top c (calendar st)) = DEPARTURE"
    and "vec_at (devices st) (entity_id (calendar_top c (calendar st))) = Inr d"
    and "current_request d = Some p" and "store st p = Some r"
  shows "\<exists>st'. loop_body vs c st = Inr st'
      \<and> requests_served st' = requests_served st + 1
      \<and> source_total_time st' ! nat (source_id r)
          = source_total_time st ! nat (source_id r)
            + (time (calendar_top c (calendar st)) - arrival_time r)
      \<and> source_waiting_time st' ! nat (source_id r)
          = source_waiting_time st ! nat (source_id r)
            + (start_service_time r - arrival_time r)
      \<and> 0 \<le> start_service_time r - arrival_time r
      \<and> start_service_time r - arrival_time r
          \<le> time (calendar_top c (calendar st)) - arrival_time r"
proof -
  let ?e = "calendar_top c (calendar st)"
  let ?did = "entity_id ?e"
  have t: "time_ok st" by (rule reachable_time[OF assms(2,1)])
  have i: "model_inv None st" by (rule reachable_inv[OF assms(2)])
  have ne: "calendar st \<noteq> []" using assms(3) by (simp add: loop_guard_def)
  from assms(5) have did: "0 \<le> ?did" "?did < int (length (devices st))"
    and d: "d = devices st ! nat ?did"
    by (auto simp: vec_at_def split: if_splits)
  then have dmem: "d \<in> set (devices st)" by simp
  with assms(6) have pin: "p \<in> set (in_service (devices st))"
    by (force simp: in_service_def opt_list_def)
  with t assms(7) have ord: "arrival_time r \<le> start_service_time r"
    "start_service_time r \<le> current_time st"
    by (auto simp: time_ok_def)
  have le: "current_time st \<le> time ?e"
    using t calendar_top_min[OF ne, of c] by (simp add: time_ok_def)
  have so: "store_ok None st" and vec: "vectors_ok st" using i by (simp_all add: model_inv_def)
  have "p \<in> set (held None st)" using pin by (simp add: held_def)
  with so assms(7) have sid: "0 \<le> source_id r" "source_id r < int (length (sources st))"
    by (auto simp: store_ok_def)
  from inv_loop_body[OF i ne, of vs c] obtain st' where
    b: "loop_body vs c st = Inr st'" by blast
  let ?st1 = "st\<lparr>calendar := calendar_pop c (calendar st), current_time := time ?e\<rparr>"
  have pd: "processDeparture vs ?did ?st1 = Inr st'"
    using b assms(4) by (simp add: loop_body_def Let_def)
  let ?st2 = "?st1\<lparr>devices := (devices ?st1)[nat ?did := (devices ?st1 ! nat ?did)\<lparr>current_request := None\<rparr>]\<rparr>"
  have did1: "?did < int (length (devices ?st1))" using did(2) by simp
  from pd obtain st3 where
    rf: "record_finished ?did (current_request (devices ?st1 ! nat ?did)) ?st2 = Inr st3"
    and sn: "serve_next vs st3 = Inr st'"
    unfolding processDeparture_unfold[OF did(1) did1] by (auto split: sum.splits)
  have cr: "current_request (devices ?st1 ! nat ?did) = Some p" using d assms(6) by simp
  have st3: "requests_served st3 = requests_served st + 1"
    "source_total_time st3 = (source_total_time st)[nat (source_id r) :=
        source_total_time st ! nat (source_id r) + (time ?e - arrival_time r)]"
    "source_waiting_time st3 = (source_waiting_time st)[nat (source_id r) :=
        source_waiting_time st ! nat (source_id r) + (start_service_time r - arrival_time r)]"
    using rf cr assms(7) sid vec
    by (auto simp: record_finished_def Let_def vec_at_def vectors_ok_def delete_Request_def
          total_time_def waiting_time_def split: if_splits)
  have k: "nat (source_id r) < length (source_total_time st)"
    "nat (source_id r) < length (source_waiting_time st)"
    using sid vec by (simp_all add: vectors_ok_def)
  from serve_next_stats[OF sn] st3 k
  have "requests_served st' = requests_served st + 1
      \<and> source_total_time st' ! nat (source_id r)
          = source_total_time st ! nat (source_id r) + (time ?e - arrival_time r)
      \<and> source_waiting_time st' ! nat (source_id r)
          = source_waiting_time st ! nat (source_id r) + (start_service_time r - arrival_time r)"
    by simp
  moreover have "0 \<le> start_service_time r - arrival_time r"
    "start_service_time r - arrival_time r \<le> time ?e - arrival_time r"
    using ord le by simp_all
  ultimately show ?thesis using b by blast
qed

theorem departure_accounts_sojourn_and_waiting_witness:
  "\<exists>st'. loop_body const_variates 0 after_first_arrival = Inr st'
      \<and> requests_served st' = 1
      \<and> source_total_time st' ! 0 = 1 / 10
      \<and> source_waiting_time st' ! 0 = 0"
proof -
  have h1: "variates_ok const_variates"
    by (simp add: variates_ok_def const_variates_def)
  have g0: "loop_guard 1000 1000 (SimulationModel_init const_variates)"
    by (simp add: loop_guard_def init_const)
  have h2: "reachable const_variates 1000 1000 after_first_arrival"
    by (rule reachable_step[OF reachable_init g0 first_step[of 0]])
  have h3: "loop_guard 1000 1000 after_first_arrival"
    by (simp add: loop_guard_def after_first_arrival_def)
  have top: "calendar_top 0 (calendar after_first_arrival) = Event_init (8/5) DEPARTURE 0 (Some 0)"
    by (simp add: after_first_arrival_def calendar_top_def earliest_def Event_init_def)
  have h4: "type (calendar_top 0 (calendar after_first_arrival)) = DEPARTURE"
    by (simp add: top Event_init_def)
  have h5: "vec_at (devices after_first_arrival) (entity_id (calendar_top 0 (calendar after_first_arrival)))
              = Inr ((Device_init 0 2)\<lparr>current_request := Some 0\<rparr>)"
    unfolding top by (simp add: Event_init_def after_first_arrival_def vec_at_def)
  have h6: "current_request ((Device_init 0 2)\<lparr>current_request := Some 0\<rparr>) = Some 0" by simp
  have h7: "store after_first_arrival 0 = Some ((Request_init 0 1 (3/2))\<lparr>start_service_time := 3/2\<rparr>)"
    by (simp add: after_first_arrival_def)
  have v: "requests_served after_first_arrival = 0" "source_total_time after_first_arrival ! 0 = 0"
    "source_waiting_time after_first_arrival ! 0 = 0"
    by (simp_all add: after_first_arrival_def)
  from departure_accounts_sojourn_and_waiting[OF h1 h2 h3 h4 h5 h6 h7] show ?thesis
    by (simp add: top Event_init_def Request_init_def v)
qed


section \<open>An arrival at a full buffer\<close>















text \<open>
  The insertion of line 352 is outside the \<^verbatim>\<open>if (rejected_request)\<close> of lines 346-351: had
  \<open>findRequestToReject\<close> returned none on a full buffer, \<open>place_in_buffer\<close> would append the
  arriving request all the same. No reachable state takes this branch.
\<close>

lemma place_in_buffer_no_candidate_branch:
  assumes "isFull (buffer st)" and "findRequestToReject (store st) (buffer st) = Inr (None, b)"
  shows "place_in_buffer req st = Inr (st\<lparr>buffer := addRequest req b\<rparr>)"
  using assms by (simp add: place_in_buffer_def)


section \<open>Termination of the loop\<close>


lemma arrivals_left_decreases:
  assumes "t < max_time" and "3 / 2 \<le> x"
  shows "Suc (arrivals_left max_time (t + x)) \<le> arrivals_left max_time t"
proof -
  define a where "a = (max_time - t) / (3 / 2)"
  define c1 where "c1 = \<lceil>(max_time - (t + x)) / (3 / 2)\<rceil>"
  define ca where "ca = \<lceil>a\<rceil>"
  have apos: "0 < a" using assms(1) by (simp add: a_def)
  have "(max_time - (t + x)) / (3 / 2) \<le> a - 1"
    using assms(2) by (simp add: a_def field_simps)
  then have "c1 \<le> \<lceil>a - 1\<rceil>" unfolding c1_def by (rule ceiling_mono)
  also have "\<dots> = ca - 1" by (simp add: ca_def)
  finally have le: "c1 \<le> ca - 1" .
  have "1 \<le> ca" using apos unfolding ca_def by (simp add: Suc_le_eq)
  with le have "Suc (nat c1) \<le> nat ca" by arith
  then show ?thesis by (simp only: arrivals_left_def c1_def ca_def a_def)
qed

lemma start_on_device_frame:
  assumes "start_on_device vs idx req st = Inr st'"
  shows "\<exists>e. calendar st' = calendar st @ [e] \<and> type e = DEPARTURE"
    and "buffer st' = buffer st" and "current_time st' = current_time st"
  using assms
  by (auto simp: start_on_device_def getServiceTime_def startService_def calendar_push_def
        Event_init_def split: sum.splits option.splits)

lemma weight_start_on_device:
  "start_on_device vs idx req st = Inr st' \<Longrightarrow> weight mt st' = Suc (weight mt st)"
  using start_on_device_frame[of vs idx req st st']
  by (auto simp: weight_def event_weight_def)

lemma weight_place_in_buffer:
  assumes "place_in_buffer req st = Inr st'"
  shows "weight mt st' \<le> Suc (weight mt st)"
proof -
  have "length (queue (buffer st')) \<le> Suc (length (queue (buffer st)))"
  proof (cases "isFull (buffer st)")
    case False
    with assms show ?thesis by (auto simp: place_in_buffer_def addRequest_def)
  next
    case True
    with assms obtain rr b where
      f: "findRequestToReject (store st) (buffer st) = Inr (rr, b)"
      by (auto simp: place_in_buffer_def split: sum.splits)
    from findRequestToReject_mset[OF f] have "length (queue b) \<le> length (queue (buffer st))"
      using mset_eq_length[of "queue b @ opt_list rr" "queue (buffer st)"] by simp
    moreover have "length (queue (buffer st')) \<le> Suc (length (queue b))"
      using assms True f
      by (auto simp: place_in_buffer_def addRequest_def delete_Request_def queue_removeRequest
            le_SucI split: option.splits sum.splits)
    ultimately show ?thesis by simp
  qed
  then show ?thesis using place_in_buffer_frame[OF assms] by (simp add: weight_def)
qed

lemma record_finished_frame:
  "record_finished did f st = Inr st' \<Longrightarrow>
   calendar st' = calendar st \<and> buffer st' = buffer st \<and> current_time st' = current_time st"
  by (auto simp: record_finished_def delete_Request_def Let_def split: sum.splits option.splits)

lemma weight_serve_next:
  assumes "serve_next vs st = Inr st'"
  shows "weight mt st' \<le> weight mt st \<and> current_time st' = current_time st"
proof (cases "isEmpty (buffer st)")
  case True
  with assms show ?thesis by (simp add: serve_next_def)
next
  case False
  with assms obtain nr b css where
    g: "getNextRequest (store st) (buffer st) (current_serving_source st) = Inr (nr, b, css)"
    by (auto simp: serve_next_def split: sum.splits)
  from getNextRequest_mset[OF g]
  have len: "length (queue b) + length (opt_list nr) = length (queue (buffer st))"
    using mset_eq_length[of "queue b @ opt_list nr" "queue (buffer st)"] by simp
  show ?thesis
  proof (cases nr)
    case None
    with assms False g len show ?thesis by (auto simp: serve_next_def weight_def)
  next
    case (Some p)
    obtain fd sel where
      fd: "getFreeDevice (device_selector st) (devices st) = Inr (fd, sel)"
      using assms False g Some by (auto simp: serve_next_def Let_def split: sum.splits)
    let ?st1 = "st\<lparr>buffer := removeRequest p b, current_serving_source := css,
                         device_selector := sel\<rparr>"
    have res: "(case fd of Some idx \<Rightarrow> start_on_device vs idx p ?st1
                 | None \<Rightarrow> Inr ?st1) = Inr st'"
      using assms False g Some fd by (cases fd) (simp_all add: serve_next_def Let_def)
    have w1: "Suc (weight mt ?st1) \<le> weight mt st"
      using len Some
      by (simp add: weight_def queue_removeRequest opt_list_def)
         (metis length_filter_le not_less_eq_eq)
    show ?thesis
    proof (cases fd)
      case None
      with res w1 show ?thesis by auto
    next
      case (Some idx)
      with res have s: "start_on_device vs idx p ?st1 = Inr st'" by simp
      from weight_start_on_device[OF s, of mt] start_on_device_frame(3)[OF s] w1
      show ?thesis by simp
    qed
  qed
qed




lemma weight_processArrival:
  assumes "processArrival vs sid st = Inr st'" and "model_inv None st" and "variates_ok vs"
    and "0 \<le> sid" and "sid < int (length (sources st))"
  shows "current_time st' = current_time st"
    and "current_time st < mt \<Longrightarrow>
         Suc (weight mt st') \<le> weight mt st + (2 * arrivals_left mt (current_time st) + 2)"
proof -
  have vec: "vectors_ok st" and stat: "static_ok st"
    using assms(2) by (simp_all add: model_inv_def)
  from inv_getFreeDevice[OF assms(2)] obtain fd sel where
    fd: "getFreeDevice (device_selector st) (devices st) = Inr (fd, sel)" by blast
  let ?st2 = "(arrived vs sid st)\<lparr>device_selector := sel\<rparr>"
  have res: "(case fd of Some idx \<Rightarrow> start_on_device vs idx (next_ptr st) ?st2
               | None \<Rightarrow> place_in_buffer (next_ptr st) ?st2) = Inr st'"
    using processArrival_unfold[OF assms(4) _ assms(5) fd, of vs] assms(1,5) vec
    by (simp add: vectors_ok_def)
  have w: "weight mt st' \<le> Suc (weight mt ?st2)" and ct: "current_time st' = current_time ?st2"
    using res weight_start_on_device[of vs _ "next_ptr st" ?st2 st' mt]
      start_on_device_frame(3)[of vs _ "next_ptr st" ?st2 st']
      weight_place_in_buffer[of "next_ptr st" ?st2 st' mt]
      place_in_buffer_frame[of "next_ptr st" ?st2 st']
    by (cases fd; simp)+
  show "current_time st' = current_time st" using ct by (simp add: arrived_def)
  assume lt: "current_time st < mt"
  define u where "u = uniform_real vs (generator st)
                (dist_min (sources st ! nat sid)) (dist_max (sources st ! nat sid))"
  have "sources st ! nat sid \<in> set (sources st)" using assms(4,5) by simp
  then have "dist_min (sources st ! nat sid) < dist_max (sources st ! nat sid)"
    "3 / 2 \<le> dist_min (sources st ! nat sid)"
    using stat by (auto simp: static_ok_def)
  moreover from this(1) have "dist_min (sources st ! nat sid) \<le> u"
    using assms(3) by (simp add: variates_ok_def u_def)
  ultimately have "3 / 2 \<le> u" by linarith
  from arrivals_left_decreases[OF lt this]
  have "Suc (arrivals_left mt (current_time st + u)) \<le> arrivals_left mt (current_time st)" .
  moreover have "weight mt ?st2 = weight mt st + (2 * arrivals_left mt (current_time st + u) + 2)"
    by (simp add: weight_def arrived_def calendar_push_def event_weight_def Event_init_def u_def)
  ultimately show "Suc (weight mt st') \<le> weight mt st + (2 * arrivals_left mt (current_time st) + 2)"
    using w by linarith
qed

lemma weight_processDeparture:
  assumes "processDeparture vs did st = Inr st'" and "0 \<le> did" and "did < int (length (devices st))"
  shows "weight mt st' \<le> weight mt st \<and> current_time st' = current_time st"
proof -
  let ?st1 = "st\<lparr>devices := (devices st)[nat did := (devices st ! nat did)\<lparr>current_request := None\<rparr>]\<rparr>"
  from assms(1) obtain st2 where
    rf: "record_finished did (current_request (devices st ! nat did)) ?st1 = Inr st2"
    and sn: "serve_next vs st2 = Inr st'"
    unfolding processDeparture_unfold[OF assms(2,3)] by (auto split: sum.splits)
  from record_finished_frame[OF rf] have "weight mt st2 = weight mt st"
    "current_time st2 = current_time st" by (simp_all add: weight_def)
  with weight_serve_next[OF sn, of mt] show ?thesis by simp
qed

lemma measure_loop_body:
  assumes "loop_body vs c st = Inr st'" and "model_inv None st" and "variates_ok vs"
    and "loop_guard mt mr st"
  shows "loop_measure mt mr st' < loop_measure mt mr st"
    and "current_time st' = time (calendar_top c (calendar st))"
proof -
  let ?e = "calendar_top c (calendar st)"
  let ?st1 = "st\<lparr>calendar := calendar_pop c (calendar st), current_time := time ?e\<rparr>"
  have ne: "calendar st \<noteq> []" using assms(4) by (simp add: loop_guard_def)
  note top = calendar_top_min[OF ne, of c]
  then have ok: "event_ok (length (sources st)) (length (devices st)) ?e"
    using assms(2) by (simp add: model_inv_def calendar_ok_def)
  have "calendar_ok ?st1"
    using assms(2) by (auto simp: model_inv_def calendar_ok_def calendar_pop_def dest: notin_set_remove1)
  then have i1: "model_inv None ?st1"
    using assms(2)
    by (simp add: model_inv_def vectors_ok_def devices_ok_def capacity_ok_def static_ok_def
          store_ok_def conserved_def held_def)
  have w1: "weight mt st = weight mt ?st1 + event_weight mt ?e"
    using top sum_list_map_remove1[of ?e "calendar st" "event_weight mt"]
    by (simp add: weight_def calendar_pop_def)
  have both: "current_time st' = time ?e \<and> (time ?e < mt \<longrightarrow> weight mt st' < weight mt st)"
  proof (cases "type ?e")
    case ARRIVAL
    then have r: "0 \<le> entity_id ?e" "entity_id ?e < int (length (sources ?st1))"
      using ok by (simp_all add: event_ok_def)
    have pa: "processArrival vs (entity_id ?e) ?st1 = Inr st'"
      using assms(1) ARRIVAL by (simp add: loop_body_def Let_def)
    from weight_processArrival(1)[OF pa i1 assms(3) r]
      weight_processArrival(2)[OF pa i1 assms(3) r, of mt] w1 ARRIVAL
    show ?thesis by (auto simp: event_weight_def)
  next
    case DEPARTURE
    then have r: "0 \<le> entity_id ?e" "entity_id ?e < int (length (devices ?st1))"
      using ok by (simp_all add: event_ok_def)
    have pd: "processDeparture vs (entity_id ?e) ?st1 = Inr st'"
      using assms(1) DEPARTURE by (simp add: loop_body_def Let_def)
    from weight_processDeparture[OF pd r, of mt] w1 DEPARTURE
    show ?thesis by (auto simp: event_weight_def)
  qed
  then show "current_time st' = time ?e" by simp
  show "loop_measure mt mr st' < loop_measure mt mr st"
  proof (cases "time ?e < mt")
    case True
    with both assms(4) show ?thesis by (simp add: loop_measure_def)
  next
    case False
    with both have "\<not> loop_guard mt mr st'" by (simp add: loop_guard_def)
    with assms(4) show ?thesis by (simp add: loop_measure_def)
  qed
qed

lemma run_loop_terminates:
  assumes "variates_ok vs"
  shows "model_inv None st \<Longrightarrow> \<exists>st'. run_loop vs tb mt mr k st = Some (Inr st')"
proof (induction "loop_measure mt mr st" arbitrary: st k rule: less_induct)
  case less
  show ?case
  proof (cases "loop_guard mt mr st")
    case False
    then show ?thesis by (subst run_loop.simps) simp
  next
    case True
    then have "calendar st \<noteq> []" by (simp add: loop_guard_def)
    from inv_loop_body[OF less.prems this, of vs "tb k"] obtain st1 where
      st1: "loop_body vs (tb k) st = Inr st1" "model_inv None st1" by blast
    from measure_loop_body(1)[OF st1(1) less.prems assms True]
    have "loop_measure mt mr st1 < loop_measure mt mr st" .
    from less.hyps[OF this st1(2), of "Suc k"] obtain st' where
      "run_loop vs tb mt mr (Suc k) st1 = Some (Inr st')" by blast
    then show ?thesis using True st1(1) by (subst run_loop.simps) simp
  qed
qed

text \<open>
  C6. With variates in the range of their distributions, \<open>run\<close> on the constructed model
  returns, whatever the limits and the ties, and in the state it returns the calendar is
  empty, or the clock has reached \<open>max_time\<close>, or \<open>max_requests\<close> requests have been served.
  With \<open>max_requests = 0\<close> it returns the constructed model untouched, with no request
  served.
\<close>

theorem run_terminates_stopped:
  assumes "variates_ok vs"
  shows "(\<exists>st'. run vs tb max_time max_requests (SimulationModel_init vs) = Some (Inr st')
            \<and> (calendar st' = [] \<or> max_time \<le> current_time st'
                 \<or> max_requests \<le> requests_served st'))
    \<and> run vs tb max_time 0 (SimulationModel_init vs) = Some (Inr (SimulationModel_init vs))
    \<and> requests_served (SimulationModel_init vs) = 0"
proof -
  from run_loop_terminates[OF assms inv_init, of tb max_time max_requests 0] obtain st' where
    r: "run_loop vs tb max_time max_requests 0 (SimulationModel_init vs) = Some (Inr st')" by blast
  from run_loop_reachable[OF r] reachable_init[of vs max_time max_requests]
  have "\<not> loop_guard max_time max_requests st'" by simp
  then have "calendar st' = [] \<or> max_time \<le> current_time st' \<or> max_requests \<le> requests_served st'"
    by (auto simp: loop_guard_def)
  moreover have z: "requests_served (SimulationModel_init vs) = 0"
    by (simp add: SimulationModel_init_eq)
  moreover have "run vs tb max_time 0 (SimulationModel_init vs) = Some (Inr (SimulationModel_init vs))"
    unfolding run_def by (subst run_loop.simps) (simp add: loop_guard_def z)
  ultimately show ?thesis using r by (simp add: run_def)
qed




theorem run_terminates_stopped_witness:
  "\<exists>st'. run const_variates no_ties 1000 1000 (SimulationModel_init const_variates) = Some (Inr st')
      \<and> (calendar st' = [] \<or> 1000 \<le> current_time st' \<or> 1000 \<le> requests_served st')"
proof -
  have h: "variates_ok const_variates"
    by (simp add: variates_ok_def const_variates_def)
  from run_terminates_stopped[OF h, of no_ties 1000 1000] show ?thesis by blast
qed

lemma processArrival_current_time:
  assumes "processArrival vs sid st = Inr st'" and "model_inv None st"
    and "0 \<le> sid" and "sid < int (length (sources st))"
  shows "current_time st' = current_time st"
proof -
  have vec: "vectors_ok st" using assms(2) by (simp add: model_inv_def)
  from inv_getFreeDevice[OF assms(2)] obtain fd sel where
    fd: "getFreeDevice (device_selector st) (devices st) = Inr (fd, sel)" by blast
  let ?st2 = "(arrived vs sid st)\<lparr>device_selector := sel\<rparr>"
  have res: "(case fd of Some idx \<Rightarrow> start_on_device vs idx (next_ptr st) ?st2
               | None \<Rightarrow> place_in_buffer (next_ptr st) ?st2) = Inr st'"
    using processArrival_unfold[OF assms(3) _ assms(4) fd, of vs] assms(1,4) vec
    by (simp add: vectors_ok_def)
  have "current_time st' = current_time ?st2"
    using res start_on_device_frame(3)[of vs _ "next_ptr st" ?st2 st']
      place_in_buffer_frame[of "next_ptr st" ?st2 st']
    by (cases fd) simp_all
  then show ?thesis by (simp add: arrived_def)
qed

lemma loop_body_current_time:
  assumes "loop_body vs c st = Inr st'" and "model_inv None st" and "calendar st \<noteq> []"
  shows "current_time st' = time (calendar_top c (calendar st))"
proof -
  let ?e = "calendar_top c (calendar st)"
  let ?st1 = "st\<lparr>calendar := calendar_pop c (calendar st), current_time := time ?e\<rparr>"
  note top = calendar_top_min[OF assms(3), of c]
  then have ok: "event_ok (length (sources st)) (length (devices st)) ?e"
    using assms(2) by (simp add: model_inv_def calendar_ok_def)
  have "calendar_ok ?st1"
    using assms(2) by (auto simp: model_inv_def calendar_ok_def calendar_pop_def dest: notin_set_remove1)
  then have i1: "model_inv None ?st1"
    using assms(2)
    by (simp add: model_inv_def vectors_ok_def devices_ok_def capacity_ok_def static_ok_def
          store_ok_def conserved_def held_def)
  show ?thesis
  proof (cases "type ?e")
    case ARRIVAL
    then have r: "0 \<le> entity_id ?e" "entity_id ?e < int (length (sources ?st1))"
      using ok by (simp_all add: event_ok_def)
    have pa: "processArrival vs (entity_id ?e) ?st1 = Inr st'"
      using assms(1) ARRIVAL by (simp add: loop_body_def Let_def)
    from processArrival_current_time[OF pa i1 r] show ?thesis by simp
  next
    case DEPARTURE
    then have r: "0 \<le> entity_id ?e" "entity_id ?e < int (length (devices ?st1))"
      using ok by (simp_all add: event_ok_def)
    have pd: "processDeparture vs (entity_id ?e) ?st1 = Inr st'"
      using assms(1) DEPARTURE by (simp add: loop_body_def Let_def)
    from weight_processDeparture[OF pd r, of 0] show ?thesis by simp
  qed
qed

text \<open>
  C10. At the head of the loop, when the loop condition holds and the earliest event is at
  or after \<open>max_time\<close>, the body still processes that event, the clock becomes its time,
  the loop condition fails afterwards and the loop returns that state. So the final clock can
  exceed \<open>max_time\<close>: with \<open>max_time = 1\<close> the run ends at time 3/2.
\<close>

theorem event_at_max_time_processed:
  assumes "reachable vs max_time max_requests st" and "loop_guard max_time max_requests st"
    and "max_time \<le> time (calendar_top (tb k) (calendar st))"
  shows "(\<exists>st'. loop_body vs (tb k) st = Inr st'
            \<and> current_time st' = time (calendar_top (tb k) (calendar st))
            \<and> \<not> loop_guard max_time max_requests st'
            \<and> run_loop vs tb max_time max_requests k st = Some (Inr st'))
    \<and> run const_variates no_ties 1 1000 (SimulationModel_init const_variates)
          = Some (Inr after_first_arrival)
    \<and> 1 < current_time after_first_arrival"
proof -
  have i: "model_inv None st" by (rule reachable_inv[OF assms(1)])
  have ne: "calendar st \<noteq> []" using assms(2) by (simp add: loop_guard_def)
  from inv_loop_body[OF i ne, of vs "tb k"] obtain st' where
    b: "loop_body vs (tb k) st = Inr st'" by blast
  from loop_body_current_time[OF b i ne]
  have ct: "current_time st' = time (calendar_top (tb k) (calendar st))" .
  with assms(3) have ng: "\<not> loop_guard max_time max_requests st'" by (simp add: loop_guard_def)
  have "run_loop vs tb max_time max_requests (Suc k) st' = Some (Inr st')"
    using ng by (subst run_loop.simps) simp
  then have r: "run_loop vs tb max_time max_requests k st = Some (Inr st')"
    using assms(2) b by (subst run_loop.simps) simp
  have g0: "loop_guard 1 1000 (SimulationModel_init const_variates)"
    by (simp add: loop_guard_def init_const)
  have g1: "\<not> loop_guard 1 1000 after_first_arrival"
    by (simp add: loop_guard_def after_first_arrival_def)
  have "run_loop const_variates no_ties 1 1000 (Suc 0) after_first_arrival = Some (Inr after_first_arrival)"
    using g1 by (subst run_loop.simps) simp
  then have "run const_variates no_ties 1 1000 (SimulationModel_init const_variates)
          = Some (Inr after_first_arrival)"
    unfolding run_def using g0 first_step[of "no_ties 0"] by (subst run_loop.simps) simp
  moreover have "1 < current_time after_first_arrival" by (simp add: after_first_arrival_def)
  ultimately show ?thesis using b ct ng r by blast
qed

theorem event_at_max_time_processed_witness:
  "\<exists>st'. loop_body const_variates (no_ties 0) (SimulationModel_init const_variates) = Inr st'
      \<and> current_time st' = 3 / 2
      \<and> \<not> loop_guard 1 1000 st'
      \<and> run_loop const_variates no_ties 1 1000 0 (SimulationModel_init const_variates) = Some (Inr st')"
proof -
  have h2: "loop_guard 1 1000 (SimulationModel_init const_variates)"
    by (simp add: loop_guard_def init_const)
  have t: "time (calendar_top (no_ties 0) (calendar (SimulationModel_init const_variates))) = 3 / 2"
    by (simp add: top_init Event_init_def)
  have h3: "1 \<le> time (calendar_top (no_ties 0) (calendar (SimulationModel_init const_variates)))"
    by (simp add: t)
  have h1: "reachable const_variates 1 1000 (SimulationModel_init const_variates)"
    by (rule reachable_init)
  from event_at_max_time_processed[of const_variates 1 1000 "SimulationModel_init const_variates"
      no_ties 0, OF h1 h2 h3]
  show ?thesis by (simp add: t)
qed

section \<open>The invariants on the state after the first arrival\<close>

theorem buffer_within_capacity_witness:
  "getSize (buffer after_first_arrival) \<le> getMaxSize (buffer after_first_arrival)
   \<and> getMaxSize (buffer after_first_arrival) = 3"
proof -
  have g0: "loop_guard 1000 1000 (SimulationModel_init const_variates)"
    by (simp add: loop_guard_def init_const)
  have h: "reachable const_variates 1000 1000 after_first_arrival"
    by (rule reachable_step[OF reachable_init g0 first_step[of 0]])
  from buffer_within_capacity[OF h] show ?thesis by blast
qed

theorem requests_conserved_witness:
  "requests_generated after_first_arrival
     = requests_served after_first_arrival + requests_rejected after_first_arrival
       + getSize (buffer after_first_arrival)
       + int (length (filter (\<lambda>d. \<not> isFree d) (devices after_first_arrival)))
   \<and> requests_generated after_first_arrival = 1"
proof -
  have g0: "loop_guard 1000 1000 (SimulationModel_init const_variates)"
    by (simp add: loop_guard_def init_const)
  have h: "reachable const_variates 1000 1000 after_first_arrival"
    by (rule reachable_step[OF reachable_init g0 first_step[of 0]])
  have "requests_generated after_first_arrival = 1" by (simp add: after_first_arrival_def)
  with requests_conserved[OF h] show ?thesis by blast
qed

section \<open>The start values of the scans\<close>

text \<open>
  The two selections start from \<open>INT_MAX\<close> and from \<open>-1\<close>. A request whose source id is
  the start value itself is never selected, which is why the theorems about
  \<open>getNextRequest\<close> and \<open>findRequestToReject\<close> ask for source ids below \<open>INT_MAX\<close> and
  from 0 on; the sources of the model are numbered from 0.
\<close>

lemma getNextRequest_at_INT_MAX:
  "getNextRequest [0 \<mapsto> Request_init INT_MAX 1 0] \<lparr>queue = [0], max_size = 3\<rparr> (-1)
     = Inr (None, \<lparr>queue = [0], max_size = 3\<rparr>, -1)"
  by (simp add: getNextRequest_def select_by_priority_def Request_init_def)

lemma findRequestToReject_below_zero:
  "findRequestToReject [0 \<mapsto> Request_init (-1) 1 0] \<lparr>queue = [0], max_size = 3\<rparr>
     = Inr (None, \<lparr>queue = [0], max_size = 3\<rparr>)"
  by (simp add: findRequestToReject_def Request_init_def)

end
